theory Spec2Isabelle
  imports Main "HOL-Library.Word"
begin

section \<open>Paths\<close>

text \<open>
  A \<^verbatim>\<open>pathlib.Path\<close> is the list of its components, outermost first. The attributes
  \<^verbatim>\<open>name\<close>, \<^verbatim>\<open>suffix\<close> and \<^verbatim>\<open>stem\<close> and the operator \<^verbatim>\<open>/\<close> follow pathlib:
  the suffix is the part of the final component from its last dot on, provided that dot
  is neither the first nor the last character; joining with an empty segment leaves the
  path as it is.
\<close>

type_synonym path = "string list"

definition name_of :: "path \<Rightarrow> string" where
  "name_of p = (if p = [] then [] else last p)"

fun rfind :: "char \<Rightarrow> string \<Rightarrow> nat option" where
  "rfind c [] = None"
| "rfind c (x # xs) =
     (case rfind c xs of
        Some i \<Rightarrow> Some (Suc i)
      | None \<Rightarrow> if x = c then Some 0 else None)"

definition suffix_of :: "path \<Rightarrow> string" where
  "suffix_of p =
     (let n = name_of p in
      case rfind (CHR ''.'') n of
        None \<Rightarrow> []
      | Some i \<Rightarrow> if 0 < i \<and> Suc i < length n then drop i n else [])"

definition stem_of :: "path \<Rightarrow> string" where
  "stem_of p =
     (let n = name_of p in
      case rfind (CHR ''.'') n of
        None \<Rightarrow> n
      | Some i \<Rightarrow> if 0 < i \<and> Suc i < length n then take i n else n)"

definition joinpath :: "path \<Rightarrow> string \<Rightarrow> path" where
  "joinpath p seg = (if seg = [] then p else p @ [seg])"

definition parent :: "path \<Rightarrow> path" where
  "parent p = butlast p"

fun ancestors :: "path \<Rightarrow> path list" where
  "ancestors [] = [[]]"
| "ancestors (x # xs) = [] # map ((#) x) (ancestors xs)"

section \<open>The file system\<close>

text \<open>
  The routing engine reaches the file system through four primitives: \<^verbatim>\<open>Path.mkdir\<close>,
  \<^verbatim>\<open>Path.exists\<close>/\<^verbatim>\<open>is_file\<close>, \<^verbatim>\<open>shutil.copy2\<close> and \<^verbatim>\<open>open(..., "w")\<close>. The state
  holds the directories, the regular files with their contents, the paths the process
  may not open, and a journal of the completed \<^verbatim>\<open>copy2\<close> calls (source and destination
  argument, oldest first). An exception leaves the state as it was when it was raised.
\<close>

type_synonym float = "64 word"

type_synonym row = "string \<times> string \<times> int \<times> int \<times> float \<times> string"

datatype content = Bytes string | Report "row list"

datatype error =
  FileExistsError | FileNotFoundError | PermissionError | SameFileError
  | IsADirectoryError | KeyError | InvalidParameterError

record fs =
  dirs :: "path set"
  files :: "path \<rightharpoonup> content"
  denied :: "path set"
  journal :: "(path \<times> path) list"

definition is_file :: "'a fs_scheme \<Rightarrow> path \<Rightarrow> bool" where
  "is_file s p = (files s p \<noteq> None)"

definition exists_path :: "'a fs_scheme \<Rightarrow> path \<Rightarrow> bool" where
  "exists_path s p = (is_file s p \<or> p \<in> dirs s)"

text \<open>\<^verbatim>\<open>p.mkdir(parents=True, exist_ok=True)\<close>\<close>

definition ensure_dir :: "path \<Rightarrow> 'a fs_scheme \<Rightarrow> error option \<times> 'a fs_scheme" where
  "ensure_dir p s =
     (if p \<in> dirs s then (None, s)
      else if \<exists>q \<in> set (ancestors p). is_file s q then (Some FileExistsError, s)
      else if \<exists>q \<in> set (ancestors p). q \<notin> dirs s \<and> q \<in> denied s then (Some PermissionError, s)
      else (None, s\<lparr>dirs := dirs s \<union> set (ancestors p)\<rparr>))"

text \<open>
  \<^verbatim>\<open>shutil.copy2(src, dst)\<close>: a destination that is a directory stands for the file of
  the source's name inside it; the source must be a regular file other than the target;
  the target is created or overwritten.
\<close>

definition copy_target :: "'a fs_scheme \<Rightarrow> path \<Rightarrow> path \<Rightarrow> path" where
  "copy_target s src dst = (if dst \<in> dirs s then joinpath dst (name_of src) else dst)"

definition copy2 :: "path \<Rightarrow> path \<Rightarrow> 'a fs_scheme \<Rightarrow> error option \<times> 'a fs_scheme" where
  "copy2 src dst s =
     (let t = copy_target s src dst in
      case files s src of
        None \<Rightarrow> (Some FileNotFoundError, s)
      | Some c \<Rightarrow>
          if src = t then (Some SameFileError, s)
          else if src \<in> denied s \<or> t \<in> denied s then (Some PermissionError, s)
          else if t \<in> dirs s then (Some IsADirectoryError, s)
          else if parent t \<notin> dirs s then (Some FileNotFoundError, s)
          else (None, s\<lparr>files := (files s)(t \<mapsto> c), journal := journal s @ [(src, dst)]\<rparr>))"

text \<open>\<^verbatim>\<open>open(p, "w")\<close> followed by writing the whole content.\<close>

definition write_file :: "path \<Rightarrow> content \<Rightarrow> 'a fs_scheme \<Rightarrow> error option \<times> 'a fs_scheme" where
  "write_file p c s =
     (if p \<in> dirs s then (Some IsADirectoryError, s)
      else if p \<in> denied s then (Some PermissionError, s)
      else if parent p \<notin> dirs s then (Some FileNotFoundError, s)
      else (None, s\<lparr>files := (files s)(p \<mapsto> c)\<rparr>))"

section \<open>Control flow with exceptions\<close>

text \<open>
  A statement maps a state to the state it leaves and the exception it raised, if any.
  \<open>and_then\<close> is sequencing, \<open>for_each\<close> is a \<^verbatim>\<open>for\<close> loop: the first exception ends it.
\<close>

definition and_then ::
  "error option \<times> 's \<Rightarrow> ('s \<Rightarrow> error option \<times> 's) \<Rightarrow> error option \<times> 's" where
  "and_then r k = (case r of (None, s) \<Rightarrow> k s | (Some e, s) \<Rightarrow> (Some e, s))"

fun for_each :: "('a \<Rightarrow> 's \<Rightarrow> error option \<times> 's) \<Rightarrow> 'a list \<Rightarrow> 's \<Rightarrow> error option \<times> 's" where
  "for_each body [] s = (None, s)"
| "for_each body (x # xs) s =
     (case body x s of
        (None, s') \<Rightarrow> for_each body xs s'
      | (Some e, s') \<Rightarrow> (Some e, s'))"

section \<open>Face records\<close>

record FaceRec =
  img_path :: path
  face_index :: int
  faces_in_image :: int
  bbox :: "float list"
  det_score :: float
  embedding :: "float list"

text \<open>
  What the detector returns for one face. The detector and the image decoding are
  outside the program: \<open>collect_faces\<close> takes them as the functions \<open>blurred\<close>
  (\<^verbatim>\<open>laplacian_variance(bgr) < blur_thr\<close> for the loaded, possibly cropped image) and
  \<open>detect\<close> (\<^verbatim>\<open>emb.detect(bgr)\<close>), and the list of image files under the input directory.
\<close>

record face =
  f_bbox :: "float list"
  f_det_score :: float
  f_embedding :: "float list"

definition records_of_image :: "path \<Rightarrow> face list \<Rightarrow> FaceRec list" where
  "records_of_image p faces =
     map (\<lambda>(idx, f).
            \<lparr>img_path = p, face_index = int idx, faces_in_image = int (length faces),
             bbox = f_bbox f, det_score = f_det_score f, embedding = f_embedding f\<rparr>)
         (enumerate 0 faces)"

definition collect_faces :: "(path \<Rightarrow> bool) \<Rightarrow> (path \<Rightarrow> face list) \<Rightarrow> path list \<Rightarrow> FaceRec list" where
  "collect_faces blurred detect fls =
     concat (map (\<lambda>p. if blurred p then [] else records_of_image p (detect p)) fls)"

text \<open>
  \<open>cluster_faces\<close>: the normalisation, the conversion of \<open>eps_sim\<close> and scikit-learn's
  \<^verbatim>\<open>DBSCAN.fit_predict\<close> are the parameter \<open>fit_predict\<close>; the guard for no records is
  the program's own.
\<close>

type_synonym clusterer = "float \<Rightarrow> int \<Rightarrow> float list list \<Rightarrow> error + int list"

definition cluster_faces :: "clusterer \<Rightarrow> FaceRec list \<Rightarrow> float \<Rightarrow> int \<Rightarrow> error + int list" where
  "cluster_faces fit_predict records eps_sim min_samples =
     (if records = [] then Inr []
      else fit_predict eps_sim min_samples (map embedding records))"

section \<open>Routing\<close>

subsection \<open>Index dictionaries\<close>

text \<open>
  A dict is an association list in insertion order.
  \<^verbatim>\<open>d.setdefault(k, []).append(i)\<close>:
\<close>

fun setdefault_append :: "'k \<Rightarrow> nat \<Rightarrow> ('k \<times> nat list) list \<Rightarrow> ('k \<times> nat list) list" where
  "setdefault_append k i [] = [(k, [i])]"
| "setdefault_append k i ((k', v) # d) =
     (if k = k' then (k', v @ [i]) # d else (k', v) # setdefault_append k i d)"

definition build_indices ::
  "FaceRec list \<Rightarrow> int list \<Rightarrow> (int \<times> nat list) list \<times> (path \<times> nat list) list" where
  "build_indices records labels =
     fold (\<lambda>(idx, (rec, lab)) (cluster_indices, image_indices).
             (setdefault_append lab idx cluster_indices,
              setdefault_append (img_path rec) idx image_indices))
          (enumerate 0 (zip records labels)) ([], [])"

subsection \<open>Eligibility and naming\<close>

definition eligible_clusters_of :: "FaceRec list \<Rightarrow> int \<Rightarrow> (int \<times> nat list) list \<Rightarrow> int set" where
  "eligible_clusters_of records group_thr cluster_indices =
     set (map fst (filter (\<lambda>(lab, idxs). lab \<noteq> - 1 \<and>
                                (\<exists>i \<in> set idxs. faces_in_image (records ! i) \<le> group_thr))
                           cluster_indices))"

text \<open>\<^verbatim>\<open>f"person_{i:03d}"\<close>\<close>

fun dec :: "nat \<Rightarrow> string" where
  "dec n = (if n < 10 then [''0123456789'' ! n] else dec (n div 10) @ [''0123456789'' ! (n mod 10)])"

declare dec.simps [simp del]

definition person_name :: "nat \<Rightarrow> string" where
  "person_name i = ''person_'' @ replicate (3 - length (dec i)) (CHR ''0'') @ dec i"

definition cluster_to_name_of :: "int set \<Rightarrow> (int \<times> string) list" where
  "cluster_to_name_of eligible_clusters =
     map (\<lambda>(i, cl). (cl, person_name i)) (enumerate 0 (sorted_list_of_set eligible_clusters))"

subsection \<open>The routing state\<close>

text \<open>
  The file system together with the local collections of \<open>route_by_clusters\<close>. The
  staged sets are kept as the sequence of their insertions. The order in which Python
  iterates over a set is not fixed by the language: \<open>io\<close> (sets of labels) and \<open>po\<close>
  (sets of paths) give, for a sequence of insertions, the order of iteration.
\<close>

record state = fs +
  copied_person_image :: "(string \<times> path) set"
  staged_group_only :: "path list"
  staged_unknown :: "path list"
  log :: "row list"

definition set_order :: "('a list \<Rightarrow> 'a list) \<Rightarrow> bool" where
  "set_order f = (\<forall>xs. set (f xs) = set xs \<and> distinct (f xs))"

definition labs_on_image :: "(int list \<Rightarrow> int list) \<Rightarrow> int list \<Rightarrow> nat list \<Rightarrow> int list" where
  "labs_on_image io labels idxs = io (map (\<lambda>i. labels ! i) idxs)"

definition eligible_on_image :: "(int list \<Rightarrow> int list) \<Rightarrow> int set \<Rightarrow> int list \<Rightarrow> int list" where
  "eligible_on_image io eligible_clusters labs = io (filter (\<lambda>lab. lab \<in> eligible_clusters) labs)"

definition ineligible_on_image :: "(int list \<Rightarrow> int list) \<Rightarrow> int set \<Rightarrow> int list \<Rightarrow> int list" where
  "ineligible_on_image io eligible_clusters labs =
     io (filter (\<lambda>lab. lab \<notin> eligible_clusters \<and> lab \<noteq> - 1) labs)"

definition has_any_cluster :: "int list \<Rightarrow> bool" where
  "has_any_cluster labs = (filter (\<lambda>lab. lab \<noteq> - 1) labs \<noteq> [])"

text \<open>\<^verbatim>\<open>if not (dst.exists() and dst.is_file()): shutil.copy2(src, dst)\<close>\<close>

definition copy_if_absent :: "path \<Rightarrow> path \<Rightarrow> 'a fs_scheme \<Rightarrow> error option \<times> 'a fs_scheme" where
  "copy_if_absent src dst s = (if \<not> is_file s dst then copy2 src dst s else (None, s))"

definition person_dst :: "path \<Rightarrow> string \<Rightarrow> path \<Rightarrow> path" where
  "person_dst out_dir person src =
     joinpath (joinpath out_dir person) (stem_of src @ ''__'' @ person @ suffix_of src)"

definition log_rows ::
  "FaceRec list \<Rightarrow> int list \<Rightarrow> path \<Rightarrow> nat list \<Rightarrow> (int \<Rightarrow> bool) \<Rightarrow> string \<Rightarrow> string \<Rightarrow> row list" where
  "log_rows records labels src idxs sel folder reason =
     map (\<lambda>i. (name_of src, folder, face_index (records ! i), faces_in_image (records ! i),
               det_score (records ! i), reason))
         (filter (\<lambda>i. sel (labels ! i)) idxs)"

text \<open>The body of \<^verbatim>\<open>for lab in eligible_on_image\<close>.\<close>

definition copy_to_person ::
  "FaceRec list \<Rightarrow> int list \<Rightarrow> path \<Rightarrow> (int \<times> string) list \<Rightarrow> path \<Rightarrow> nat list \<Rightarrow> int
     \<Rightarrow> state \<Rightarrow> error option \<times> state" where
  "copy_to_person records labels out_dir cluster_to_name src idxs lab s =
     (case map_of cluster_to_name lab of
        None \<Rightarrow> (Some KeyError, s)
      | Some person \<Rightarrow>
          and_then
            (if (person, src) \<notin> copied_person_image s
             then and_then (copy_if_absent src (person_dst out_dir person src) s)
                    (\<lambda>s. (None, s\<lparr>copied_person_image := insert (person, src) (copied_person_image s)\<rparr>))
             else (None, s))
            (\<lambda>s. (None, s\<lparr>log := log s @ log_rows records labels src idxs (\<lambda>l. l = lab)
                                           person ''eligible_person_image''\<rparr>)))"

text \<open>The body of \<^verbatim>\<open>for src, idxs in image_indices.items()\<close>.\<close>

definition route_image ::
  "(int list \<Rightarrow> int list) \<Rightarrow> FaceRec list \<Rightarrow> int list \<Rightarrow> path \<Rightarrow> int set \<Rightarrow> (int \<times> string) list
     \<Rightarrow> path \<times> nat list \<Rightarrow> state \<Rightarrow> error option \<times> state" where
  "route_image io records labels out_dir eligible_clusters cluster_to_name item s =
     (let src = fst item; idxs = snd item;
          labs = labs_on_image io labels idxs;
          eligible = eligible_on_image io eligible_clusters labs;
          ineligible = ineligible_on_image io eligible_clusters labs
      in and_then
           (for_each (copy_to_person records labels out_dir cluster_to_name src idxs) eligible s)
           (\<lambda>s. and_then
              (if ineligible \<noteq> []
               then (None, s\<lparr>staged_group_only := staged_group_only s @ [src],
                             log := log s @ log_rows records labels src idxs (\<lambda>l. l \<in> set ineligible)
                                              ''__group_only__'' ''group_only_person_on_image''\<rparr>)
               else (None, s))
              (\<lambda>s. if \<not> has_any_cluster labs
                    then (None, s\<lparr>staged_unknown := staged_unknown s @ [src],
                                  log := log s @ log_rows records labels src idxs (\<lambda>l. l = - 1)
                                                   ''__unknown__'' ''noise_only_image''\<rparr>)
                    else (None, s))))"

text \<open>The body of the two loops that write the staged copies.\<close>

definition flush_copy :: "path \<Rightarrow> path \<Rightarrow> 'a fs_scheme \<Rightarrow> error option \<times> 'a fs_scheme" where
  "flush_copy dir src s = copy_if_absent src (joinpath dir (name_of src)) s"

subsection \<open>\<^verbatim>\<open>route_by_clusters\<close>\<close>

definition init_state :: "fs \<Rightarrow> state" where
  "init_state f =
     \<lparr>dirs = dirs f, files = files f, denied = denied f, journal = journal f,
      copied_person_image = {}, staged_group_only = [], staged_unknown = [], log = []\<rparr>"

definition route_by_clusters ::
  "(int list \<Rightarrow> int list) \<Rightarrow> (path list \<Rightarrow> path list) \<Rightarrow> FaceRec list \<Rightarrow> int list \<Rightarrow> path \<Rightarrow> int
     \<Rightarrow> fs \<Rightarrow> (error + (int \<times> string) list \<times> path \<times> int set) \<times> state" where
  "route_by_clusters io po records labels out_dir group_thr f =
     (let unknown_dir = joinpath out_dir ''__unknown__'';
          group_only_dir = joinpath out_dir ''__group_only__'';
          cluster_indices = fst (build_indices records labels);
          image_indices = snd (build_indices records labels);
          eligible_clusters = eligible_clusters_of records group_thr cluster_indices;
          cluster_to_name = cluster_to_name_of eligible_clusters;
          report_path = joinpath out_dir ''clustering_report.csv'';
          r = and_then (ensure_dir out_dir (init_state f)) (\<lambda>s.
              and_then (ensure_dir unknown_dir s) (\<lambda>s.
              and_then (ensure_dir group_only_dir s) (\<lambda>s.
              and_then (for_each (\<lambda>person. ensure_dir (joinpath out_dir person))
                          (map snd cluster_to_name) s) (\<lambda>s.
              and_then (for_each (route_image io records labels out_dir eligible_clusters
                                    cluster_to_name) image_indices s) (\<lambda>s.
              and_then (for_each (flush_copy group_only_dir) (po (staged_group_only s)) s) (\<lambda>s.
              and_then (for_each (flush_copy unknown_dir) (po (staged_unknown s)) s) (\<lambda>s.
              write_file report_path (Report (log s)) s)))))))
      in case r of
           (None, s) \<Rightarrow> (Inr (cluster_to_name, report_path, eligible_clusters), s)
         | (Some e, s) \<Rightarrow> (Inl e, s))"

subsection \<open>\<^verbatim>\<open>main\<close>\<close>

record args =
  args_out_dir :: path
  args_eps_sim :: float
  args_min_samples :: int
  args_group_thr :: int

datatype outcome = NoUsableFaces | Routed "(int \<times> string) list" path "int set"

definition fs_of :: "state \<Rightarrow> fs" where
  "fs_of s = \<lparr>dirs = dirs s, files = files s, denied = denied s, journal = journal s\<rparr>"

definition main ::
  "(path \<Rightarrow> bool) \<Rightarrow> (path \<Rightarrow> face list) \<Rightarrow> clusterer \<Rightarrow> (int list \<Rightarrow> int list)
     \<Rightarrow> (path list \<Rightarrow> path list) \<Rightarrow> args \<Rightarrow> path list \<Rightarrow> fs \<Rightarrow> (error + outcome) \<times> fs" where
  "main blurred detect fit_predict io po a fls f =
     (let records = collect_faces blurred detect fls in
      if records = [] then (Inr NoUsableFaces, f)
      else case cluster_faces fit_predict records (args_eps_sim a) (args_min_samples a) of
             Inl e \<Rightarrow> (Inl e, f)
           | Inr labels \<Rightarrow>
               (case route_by_clusters io po records labels (args_out_dir a) (args_group_thr a) f of
                  (Inl e, s) \<Rightarrow> (Inl e, fs_of s)
                | (Inr (cluster_to_name, report_path, eligible_clusters), s) \<Rightarrow>
                    (Inr (Routed cluster_to_name report_path eligible_clusters), fs_of s)))"

section \<open>Notions used in the proofs\<close>

text \<open>
  The part of \<open>route_by_clusters\<close> that follows the creation of the three fixed
  directories, and the whole sequence of its statements.
\<close>

definition after_dirs ::
  "(int list \<Rightarrow> int list) \<Rightarrow> (path list \<Rightarrow> path list) \<Rightarrow> FaceRec list \<Rightarrow> int list \<Rightarrow> path \<Rightarrow> int
     \<Rightarrow> state \<Rightarrow> error option \<times> state" where
  "after_dirs io po records labels out_dir group_thr s =
     (let eligible_clusters =
            eligible_clusters_of records group_thr (fst (build_indices records labels));
          cluster_to_name = cluster_to_name_of eligible_clusters
      in and_then (for_each (\<lambda>person. ensure_dir (joinpath out_dir person))
                          (map snd cluster_to_name) s) (\<lambda>s.
         and_then (for_each (route_image io records labels out_dir eligible_clusters
                                    cluster_to_name) (snd (build_indices records labels)) s) (\<lambda>s.
         and_then (for_each (flush_copy (joinpath out_dir ''__group_only__''))
                     (po (staged_group_only s)) s) (\<lambda>s.
         and_then (for_each (flush_copy (joinpath out_dir ''__unknown__''))
                     (po (staged_unknown s)) s) (\<lambda>s.
         write_file (joinpath out_dir ''clustering_report.csv'') (Report (log s)) s)))))"

definition route_run ::
  "(int list \<Rightarrow> int list) \<Rightarrow> (path list \<Rightarrow> path list) \<Rightarrow> FaceRec list \<Rightarrow> int list \<Rightarrow> path \<Rightarrow> int
     \<Rightarrow> fs \<Rightarrow> error option \<times> state" where
  "route_run io po records labels out_dir group_thr f =
     and_then (ensure_dir out_dir (init_state f)) (\<lambda>s.
     and_then (ensure_dir (joinpath out_dir ''__unknown__'') s) (\<lambda>s.
     and_then (ensure_dir (joinpath out_dir ''__group_only__'') s)
       (after_dirs io po records labels out_dir group_thr)))"

text \<open>A file system holding the root directory only.\<close>

definition fs_empty :: fs where
  "fs_empty = \<lparr>dirs = {[]}, files = Map.empty, denied = {}, journal = []\<rparr>"

text \<open>Sample inputs: a clusterer that rejects \<open>min_samples < 1\<close>, arguments, one face.\<close>

definition strict_clusterer :: clusterer where
  "strict_clusterer eps ms X = (if ms < 1 then Inl InvalidParameterError else Inr (map (\<lambda>_. - 1) X))"

definition args0 :: args where
  "args0 = \<lparr>args_out_dir = [''out''], args_eps_sim = 0, args_min_samples = - 1, args_group_thr = 3\<rparr>"

definition face0 :: face where
  "face0 = \<lparr>f_bbox = [], f_det_score = 0, f_embedding = []\<rparr>"

text \<open>One index dictionary on its own: the keys are listed, the dictionary is built.\<close>

definition index_by :: "'k list \<Rightarrow> ('k \<times> nat list) list" where
  "index_by ks = fold (\<lambda>(i, k). setdefault_append k i) (enumerate 0 ks) []"

text \<open>Sample records: a face record with the fields the router reads.\<close>

definition face_rec :: "path \<Rightarrow> int \<Rightarrow> int \<Rightarrow> FaceRec" where
  "face_rec p i n = \<lparr>img_path = p, face_index = i, faces_in_image = n, bbox = [],
                     det_score = 0, embedding = []\<rparr>"

definition recs3 :: "FaceRec list" where
  "recs3 = [face_rec [''in'', ''a.jpg''] 0 1, face_rec [''in'', ''c.jpg''] 0 4,
            face_rec [''in'', ''c.jpg''] 1 4]"

text \<open>Reading a decimal numeral back, to show that the names are pairwise different.\<close>

definition undec :: "string \<Rightarrow> nat" where
  "undec s = foldl (\<lambda>a c. 10 * a + (of_char c - 48)) 0 s"

text \<open>
  \<open>grown s t\<close>: \<open>t\<close> has the directories and permissions of \<open>s\<close> and at least its files.
  \<open>same_tree s t\<close>: the same directories, permissions and file names.
  \<open>stable s src dst\<close>: the copy of \<open>src\<close> to \<open>dst\<close> is in place, so that
  \<open>copy_if_absent src dst\<close> succeeds in \<open>s\<close> and adds no file name.
\<close>

definition grown :: "'a fs_scheme \<Rightarrow> 'b fs_scheme \<Rightarrow> bool" where
  "grown s t \<longleftrightarrow> dirs t = dirs s \<and> denied t = denied s \<and> dom (files s) \<subseteq> dom (files t)"

definition same_tree :: "'a fs_scheme \<Rightarrow> 'b fs_scheme \<Rightarrow> bool" where
  "same_tree s t \<longleftrightarrow> dirs t = dirs s \<and> denied t = denied s \<and> dom (files t) = dom (files s)"

definition stable :: "'a fs_scheme \<Rightarrow> path \<Rightarrow> path \<Rightarrow> bool" where
  "stable s src dst \<longleftrightarrow>
     is_file s dst
     \<or> (is_file s src \<and> src \<noteq> copy_target s src dst \<and> src \<notin> denied s
        \<and> copy_target s src dst \<notin> denied s \<and> copy_target s src dst \<notin> dirs s
        \<and> parent (copy_target s src dst) \<in> dirs s \<and> is_file s (copy_target s src dst))"

text \<open>
  The routing decisions for one image, as sets: the labels on the image, whether the
  image goes to the folder of a label, to the group-only bucket, to the unknown bucket.
\<close>

definition labs_of :: "int list \<Rightarrow> nat list \<Rightarrow> int set" where
  "labs_of labels idxs = (\<lambda>i. labels ! i) ` set idxs"

definition to_person :: "int set \<Rightarrow> int list \<Rightarrow> nat list \<Rightarrow> int \<Rightarrow> bool" where
  "to_person E labels idxs lab \<longleftrightarrow> lab \<in> labs_of labels idxs \<and> lab \<in> E"

definition to_group_only :: "int set \<Rightarrow> int list \<Rightarrow> nat list \<Rightarrow> bool" where
  "to_group_only E labels idxs \<longleftrightarrow> (\<exists>l \<in> labs_of labels idxs. l \<notin> E \<and> l \<noteq> - 1)"

definition to_unknown :: "int list \<Rightarrow> nat list \<Rightarrow> bool" where
  "to_unknown labels idxs \<longleftrightarrow> (\<forall>l \<in> labs_of labels idxs. l = - 1)"

text \<open>
  \<open>copied_ok\<close>: every pair recorded in \<open>copied_person_image\<close> has its copy in place.
  \<open>advanced s t\<close>: \<open>t\<close> is a later state of the run than \<open>s\<close>.
\<close>

definition copied_ok :: "path \<Rightarrow> state \<Rightarrow> bool" where
  "copied_ok out_dir s \<longleftrightarrow>
     (\<forall>k \<in> copied_person_image s. stable s (snd k) (person_dst out_dir (fst k) (snd k)))"

definition advanced :: "state \<Rightarrow> state \<Rightarrow> bool" where
  "advanced s t \<longleftrightarrow>
     grown s t \<and> set (staged_group_only s) \<subseteq> set (staged_group_only t)
     \<and> set (staged_unknown s) \<subseteq> set (staged_unknown t)"

text \<open>
  \<open>placed_or_staged\<close>: what the loop over the images has achieved for one image: its
  copies into person folders are in place and it is staged for the shared buckets it
  goes to. \<open>routed\<close>: all its copies are in place.
\<close>

definition placed_or_staged ::
  "path \<Rightarrow> (int \<times> string) list \<Rightarrow> int set \<Rightarrow> int list \<Rightarrow> path \<times> nat list \<Rightarrow> state \<Rightarrow> bool" where
  "placed_or_staged out_dir c2n E labels item s \<longleftrightarrow>
     (\<forall>lab. to_person E labels (snd item) lab \<longrightarrow>
        (\<exists>person. map_of c2n lab = Some person
                  \<and> stable s (fst item) (person_dst out_dir person (fst item))))
     \<and> (to_group_only E labels (snd item) \<longrightarrow> fst item \<in> set (staged_group_only s))
     \<and> (to_unknown labels (snd item) \<longrightarrow> fst item \<in> set (staged_unknown s))"

definition routed ::
  "path \<Rightarrow> (int \<times> string) list \<Rightarrow> int set \<Rightarrow> int list \<Rightarrow> path \<times> nat list \<Rightarrow> state \<Rightarrow> bool" where
  "routed out_dir c2n E labels item s \<longleftrightarrow>
     (\<forall>lab. to_person E labels (snd item) lab \<longrightarrow>
        (\<exists>person. map_of c2n lab = Some person
                  \<and> stable s (fst item) (person_dst out_dir person (fst item))))
     \<and> (to_group_only E labels (snd item) \<longrightarrow>
          stable s (fst item) (joinpath (joinpath out_dir ''__group_only__'') (name_of (fst item))))
     \<and> (to_unknown labels (snd item) \<longrightarrow>
          stable s (fst item) (joinpath (joinpath out_dir ''__unknown__'') (name_of (fst item))))"

text \<open>\<open>copies P s\<close>: the number of completed copies in the journal that satisfy \<open>P\<close>.\<close>

definition copies :: "(path \<times> path \<Rightarrow> bool) \<Rightarrow> 'a fs_scheme \<Rightarrow> nat" where
  "copies P s = length (filter P (journal s))"

text \<open>\<open>in_bucket src b\<close>: a copy of the image \<open>src\<close> to a destination directly in \<open>b\<close>.\<close>

definition in_bucket :: "path \<Rightarrow> path \<Rightarrow> path \<times> path \<Rightarrow> bool" where
  "in_bucket src b e \<longleftrightarrow> fst e = src \<and> parent (snd e) = b"

text \<open>
  \<open>quiet s t\<close>: \<open>t\<close> has the directories and the file names of \<open>s\<close>, and every copy
  made since \<open>s\<close> was given a directory as its destination.
\<close>

definition quiet :: "'a fs_scheme \<Rightarrow> 'b fs_scheme \<Rightarrow> bool" where
  "quiet s t \<longleftrightarrow>
     same_tree s t \<and> take (length (journal s)) (journal t) = journal s
     \<and> list_all (\<lambda>e. snd e \<in> dirs s) (drop (length (journal s)) (journal t))"

text \<open>A file system holding the two sample photos in the directory \<^verbatim>\<open>in\<close>.\<close>

definition fs_photos :: fs where
  "fs_photos = \<lparr>dirs = {[], [''in'']},
                files = [[''in'', ''a.jpg''] \<mapsto> Bytes ''A'', [''in'', ''c.jpg''] \<mapsto> Bytes ''C''],
                denied = {}, journal = []\<rparr>"

text \<open>\<open>indices_of_image\<close>: the value of \<^verbatim>\<open>image_indices[src]\<close>.\<close>

definition indices_of_image :: "FaceRec list \<Rightarrow> int list \<Rightarrow> path \<Rightarrow> nat list" where
  "indices_of_image records labels src =
     filter (\<lambda>j. img_path (records ! j) = src) [0..<min (length records) (length labels)]"

text \<open>
  \<open>untouched src c t\<close>: the journal of \<open>t\<close> holds at most \<open>c\<close> copies of the file \<open>src\<close>,
  and \<open>src\<close> is not staged for a shared bucket.
\<close>

definition untouched :: "path \<Rightarrow> nat \<Rightarrow> state \<Rightarrow> bool" where
  "untouched src c t \<longleftrightarrow>
     copies (\<lambda>e. fst e = src) t \<le> c
     \<and> src \<notin> set (staged_group_only t) \<and> src \<notin> set (staged_unknown t)"

text \<open>Sample detector: one face on the first sample photo, none on any other image.\<close>

definition detect_first :: "path \<Rightarrow> face list" where
  "detect_first p = (if p = [''in'', ''a.jpg''] then [face0] else [])"

text \<open>
  \<open>decided\<close>: \<open>dst\<close> is a destination that the routing policy gives the image \<open>src\<close>
  whose records have the indices \<open>idxs\<close>: its file in the folder of an eligible label
  on it, in \<^verbatim>\<open>__group_only__\<close> if a non-noise label on it is not eligible, in
  \<^verbatim>\<open>__unknown__\<close> if all its labels are noise.
  \<open>stray_copy\<close>: a copy of \<open>src\<close> to any other destination.
\<close>

definition decided ::
  "path \<Rightarrow> (int \<times> string) list \<Rightarrow> int set \<Rightarrow> int list \<Rightarrow> path \<Rightarrow> nat list \<Rightarrow> path \<Rightarrow> bool" where
  "decided out_dir c2n E labels src idxs dst \<longleftrightarrow>
     (\<exists>lab \<in> labs_of labels idxs. lab \<in> E
        \<and> (case map_of c2n lab of None \<Rightarrow> False
            | Some person \<Rightarrow> dst = person_dst out_dir person src))
     \<or> (to_group_only E labels idxs
        \<and> dst = joinpath (joinpath out_dir ''__group_only__'') (name_of src))
     \<or> (to_unknown labels idxs
        \<and> dst = joinpath (joinpath out_dir ''__unknown__'') (name_of src))"

definition stray_copy ::
  "path \<Rightarrow> (int \<times> string) list \<Rightarrow> int set \<Rightarrow> int list \<Rightarrow> path \<Rightarrow> nat list
     \<Rightarrow> path \<times> path \<Rightarrow> bool" where
  "stray_copy out_dir c2n E labels src idxs e \<longleftrightarrow>
     fst e = src \<and> \<not> decided out_dir c2n E labels src idxs (snd e)"

text \<open>
  \<open>kept_to\<close>: the journal holds at most \<open>c\<close> copies that satisfy \<open>P\<close>, and \<open>src\<close> is staged
  for a shared bucket only if \<open>g\<close>, respectively \<open>u\<close>, holds.
\<close>

definition kept_to :: "path \<Rightarrow> (path \<times> path \<Rightarrow> bool) \<Rightarrow> bool \<Rightarrow> bool \<Rightarrow> nat \<Rightarrow> state \<Rightarrow> bool" where
  "kept_to src P g u c t \<longleftrightarrow>
     copies P t \<le> c \<and> (src \<in> set (staged_group_only t) \<longrightarrow> g)
     \<and> (src \<in> set (staged_unknown t) \<longrightarrow> u)"

text \<open>
  \<open>present d P c\<close>: \<open>d\<close> is a regular file and the journal holds at most \<open>c\<close> copies that
  satisfy \<open>P\<close>.
\<close>

definition present :: "path \<Rightarrow> (path \<times> path \<Rightarrow> bool) \<Rightarrow> nat \<Rightarrow> 'a fs_scheme \<Rightarrow> bool" where
  "present d P c t \<longleftrightarrow> is_file t d \<and> copies P t \<le> c"

text \<open>The sample photos with the output tree in place and \<open>p\<close> already a file in it.\<close>

definition fs_holding :: "path \<Rightarrow> fs" where
  "fs_holding p =
     fs_photos\<lparr>dirs := dirs fs_photos \<union> set (ancestors (parent p)),
               files := (files fs_photos)(p \<mapsto> Bytes ''old'')\<rparr>"

text \<open>The sample photos, with \<open>p\<close> a path that the process may not write.\<close>

definition fs_denying :: "path \<Rightarrow> fs" where
  "fs_denying p = fs_photos\<lparr>denied := {p}\<rparr>"

text \<open>
  \<open>once d c\<close>: \<open>d\<close> is not a directory, and the journal holds at most \<open>c\<close> copies with the
  destination \<open>d\<close>, or one more with \<open>d\<close> now a regular file.
\<close>

definition once :: "path \<Rightarrow> nat \<Rightarrow> 'a fs_scheme \<Rightarrow> bool" where
  "once d c t \<longleftrightarrow>
     d \<notin> dirs t
     \<and> (copies (\<lambda>e. snd e = d) t \<le> c
        \<or> (copies (\<lambda>e. snd e = d) t \<le> c + 1 \<and> is_file t d))"

text \<open>
  The images staged for the two shared buckets, in the order of \<^verbatim>\<open>image_indices\<close>, and
  \<open>comes_before a b xs\<close>: \<open>a\<close> occurs in \<open>xs\<close> before any occurrence of \<open>b\<close>.
\<close>

definition staged_for_unknown :: "FaceRec list \<Rightarrow> int list \<Rightarrow> path list" where
  "staged_for_unknown records labels =
     map fst (filter (\<lambda>item. to_unknown labels (snd item)) (snd (build_indices records labels)))"

definition staged_for_group_only :: "FaceRec list \<Rightarrow> int list \<Rightarrow> int \<Rightarrow> path list" where
  "staged_for_group_only records labels group_thr =
     map fst (filter (\<lambda>item. to_group_only
                 (eligible_clusters_of records group_thr (fst (build_indices records labels)))
                 labels (snd item))
              (snd (build_indices records labels)))"

definition comes_before :: "'a \<Rightarrow> 'a \<Rightarrow> 'a list \<Rightarrow> bool" where
  "comes_before a b xs \<longleftrightarrow> a \<in> set (takeWhile (\<lambda>x. x \<noteq> b) xs)"

text \<open>
  Two photos with the basename \<^verbatim>\<open>p.jpg\<close> in different directories, with one record each
  for an image of \<open>n\<close> faces, and a file system that holds them.
\<close>

definition recs_twins :: "int \<Rightarrow> FaceRec list" where
  "recs_twins n = [face_rec [''in'', ''x'', ''p.jpg''] 0 n, face_rec [''in'', ''y'', ''p.jpg''] 0 n]"

definition fs_twins :: fs where
  "fs_twins = \<lparr>dirs = {[], [''in''], [''in'', ''x''], [''in'', ''y'']},
               files = [[''in'', ''x'', ''p.jpg''] \<mapsto> Bytes ''X'',
                        [''in'', ''y'', ''p.jpg''] \<mapsto> Bytes ''Y''],
               denied = {}, journal = []\<rparr>"


section \<open>Loops and sequencing\<close>

lemma and_then_simps [simp]:
  "and_then (None, s) k = k s"
  "and_then (Some e, s) k = (Some e, s)"
  by (simp_all add: and_then_def)

lemma and_then_None:
  "and_then r k = (None, s') \<longleftrightarrow> (\<exists>t. r = (None, t) \<and> k t = (None, s'))"
proof (cases r)
  case (Pair a t)
  then show ?thesis by (cases a) (simp_all add: and_then_def)
qed

lemma for_each_always:
  assumes "I s" and "\<And>x t. x \<in> set xs \<Longrightarrow> I t \<Longrightarrow> I (snd (body x t))"
  shows "I (snd (for_each body xs s))"
  using assms
proof (induction xs arbitrary: s)
  case Nil
  then show ?case by simp
next
  case (Cons x xs)
  obtain r t where b: "body x s = (r, t)" by (cases "body x s")
  have "I t" using Cons.prems(2)[of x s] Cons.prems(1) b by simp
  show ?case
  proof (cases r)
    case None
    have "I (snd (for_each body xs t))"
    proof (rule Cons.IH[OF \<open>I t\<close>])
      fix y u assume "y \<in> set xs" "I u"
      then show "I (snd (body y u))" using Cons.prems(2)[of y u] by simp
    qed
    then show ?thesis using b None by simp
  next
    case (Some e)
    then show ?thesis using b \<open>I t\<close> by simp
  qed
qed

lemma for_each_inv:
  assumes "for_each body xs s = (None, s')" and "I s"
    and "\<And>x t t'. x \<in> set xs \<Longrightarrow> I t \<Longrightarrow> body x t = (None, t') \<Longrightarrow> I t'"
  shows "I s'"
  using assms
proof (induction xs arbitrary: s)
  case Nil
  then show ?case by simp
next
  case (Cons x xs)
  obtain r t where b: "body x s = (r, t)" by (cases "body x s")
  with Cons.prems(1) have r: "r = None" and rest: "for_each body xs t = (None, s')"
    by (auto split: option.splits)
  have "I t" using Cons.prems(3)[of x s t] Cons.prems(2) b r by simp
  show ?case
  proof (rule Cons.IH[OF rest \<open>I t\<close>])
    fix y u u' assume "y \<in> set xs" "I u" "body y u = (None, u')"
    then show "I u'" using Cons.prems(3)[of y u u'] by simp
  qed
qed

lemma for_each_success:
  assumes run: "for_each body xs s = (None, s')" and init: "I s"
    and step: "\<And>x t t'. x \<in> set xs \<Longrightarrow> I t \<Longrightarrow> body x t = (None, t') \<Longrightarrow> I t' \<and> Q x t'"
    and keep: "\<And>x y t t'. x \<in> set xs \<Longrightarrow> I t \<Longrightarrow> Q y t \<Longrightarrow> body x t = (None, t') \<Longrightarrow> Q y t'"
  shows "I s' \<and> (\<forall>x\<in>set xs. Q x s')"
  using run init step keep
proof (induction xs arbitrary: s)
  case Nil
  from Nil.prems(1,2) show ?case by simp
next
  case (Cons x xs)
  obtain r t where b: "body x s = (r, t)" by (cases "body x s")
  with Cons.prems(1) have r: "r = None" and rest: "for_each body xs t = (None, s')"
    by (auto split: option.splits)
  have bx: "body x s = (None, t)" using b r by simp
  have t: "I t \<and> Q x t" by (rule Cons.prems(3)[OF _ Cons.prems(2) bx]) simp
  have ih: "I s' \<and> (\<forall>x\<in>set xs. Q x s')"
  proof (rule Cons.IH[OF rest])
    show "I t" using t by simp
  next
    fix y u u' assume "y \<in> set xs" "I u" "body y u = (None, u')"
    then show "I u' \<and> Q y u'" by (intro Cons.prems(3)) simp_all
  next
    fix y z u u' assume a: "y \<in> set xs" "I u" "Q z u" "body y u = (None, u')"
    show "Q z u'" by (rule Cons.prems(4)[OF _ a(2) a(3) a(4)]) (simp add: a(1))
  qed
  have "I s' \<and> Q x s'"
  proof (rule for_each_inv[OF rest, where I = "\<lambda>u. I u \<and> Q x u"])
    show "I t \<and> Q x t" by (rule t)
  next
    fix y u u' assume a: "y \<in> set xs" "I u \<and> Q x u" "body y u = (None, u')"
    have iu: "I u" and qu: "Q x u" using a(2) by simp_all
    have "I u' \<and> Q y u'" by (rule Cons.prems(3)[OF _ iu a(3)]) (simp add: a(1))
    moreover have "Q x u'" by (rule Cons.prems(4)[OF _ iu qu a(3)]) (simp add: a(1))
    ultimately show "I u' \<and> Q x u'" by simp
  qed
  with ih show ?case by simp
qed

lemma for_each_total:
  assumes "I s" and "\<And>x t. x \<in> set xs \<Longrightarrow> I t \<Longrightarrow> \<exists>t'. body x t = (None, t') \<and> I t'"
  shows "\<exists>s'. for_each body xs s = (None, s') \<and> I s'"
  using assms
proof (induction xs arbitrary: s)
  case Nil
  then show ?case by simp
next
  case (Cons x xs)
  have "\<exists>t'. body x s = (None, t') \<and> I t'"
    by (rule Cons.prems(2)) (simp_all add: Cons.prems(1))
  then obtain t where t: "body x s = (None, t)" "I t" by blast
  have "\<exists>s'. for_each body xs t = (None, s') \<and> I s'"
  proof (rule Cons.IH[OF t(2)])
    fix y u assume "y \<in> set xs" "I u"
    then show "\<exists>t'. body y u = (None, t') \<and> I t'" using Cons.prems(2)[of y u] by simp
  qed
  then show ?case using t(1) by simp
qed

lemma for_each_count:
  fixes cnt :: "'s \<Rightarrow> nat"
  assumes "\<And>x t. x \<in> set xs \<Longrightarrow> cnt (snd (body x t)) \<le> cnt t + w x"
  shows "cnt (snd (for_each body xs s)) \<le> cnt s + sum_list (map w xs)"
  using assms
proof (induction xs arbitrary: s)
  case Nil
  then show ?case by simp
next
  case (Cons x xs)
  obtain r t where b: "body x s = (r, t)" by (cases "body x s")
  have c: "cnt t \<le> cnt s + w x" using Cons.prems[of x s] b by simp
  show ?case
  proof (cases r)
    case None
    have "cnt (snd (for_each body xs t)) \<le> cnt t + sum_list (map w xs)"
    proof (rule Cons.IH)
      fix y u assume "y \<in> set xs"
      then show "cnt (snd (body y u)) \<le> cnt u + w y" using Cons.prems[of y u] by simp
    qed
    then show ?thesis using b None c by simp
  next
    case (Some e)
    then show ?thesis using b c by simp
  qed
qed

section \<open>File-system primitives\<close>

lemma self_in_ancestors: "p \<in> set (ancestors p)"
  by (induction p) auto

lemma ensure_dir_result:
  "ensure_dir p s = (None, s') \<Longrightarrow> p \<in> dirs s'"
  by (auto simp: ensure_dir_def self_in_ancestors split: if_splits)

lemma ensure_dir_fields [simp]:
  "files (snd (ensure_dir p s)) = files s"
  "denied (snd (ensure_dir p s)) = denied s"
  "journal (snd (ensure_dir p s)) = journal s"
  by (simp_all add: ensure_dir_def)

lemma ensure_dir_dirs: "dirs s \<subseteq> dirs (snd (ensure_dir p s))"
  by (auto simp: ensure_dir_def)

lemma copy2_dirs [simp]: "dirs (snd (copy2 src dst s)) = dirs s"
  by (simp add: copy2_def Let_def split: option.splits)

lemma copy2_denied [simp]: "denied (snd (copy2 src dst s)) = denied s"
  by (simp add: copy2_def Let_def split: option.splits)

lemma copy_if_absent_dirs [simp]: "dirs (snd (copy_if_absent src dst s)) = dirs s"
  by (simp add: copy_if_absent_def)

lemma copy_if_absent_denied [simp]: "denied (snd (copy_if_absent src dst s)) = denied s"
  by (simp add: copy_if_absent_def)

lemma write_file_dirs [simp]: "dirs (snd (write_file p c s)) = dirs s"
  by (simp add: write_file_def)

lemma and_then_always:
  assumes "I (snd r)" and "\<And>t. I t \<Longrightarrow> I (snd (k t))"
  shows "I (snd (and_then r k))"
proof (cases r)
  case (Pair a t)
  then show ?thesis using assms by (cases a) (simp_all add: and_then_def)
qed

lemma copy_to_person_dirs [simp]:
  "dirs (snd (copy_to_person records labels out_dir c2n src idxs lab s)) = dirs s"
proof (cases "map_of c2n lab")
  case None
  then show ?thesis by (simp add: copy_to_person_def)
next
  case (Some person)
  obtain r t where c: "copy_if_absent src (person_dst out_dir person src) s = (r, t)"
    by (cases "copy_if_absent src (person_dst out_dir person src) s")
  have "dirs t = dirs s" using copy_if_absent_dirs[of src "person_dst out_dir person src" s] c by simp
  then show ?thesis using Some c by (cases r) (simp_all add: copy_to_person_def)
qed

lemma route_image_dirs:
  "dirs (snd (route_image io records labels out_dir E c2n item s)) = dirs s"
proof -
  let ?loop = "for_each (copy_to_person records labels out_dir c2n (fst item) (snd item))
                 (eligible_on_image io E (labs_on_image io labels (snd item))) s"
  have l: "dirs (snd ?loop) = dirs s"
    by (rule for_each_always[where I = "\<lambda>t. dirs t = dirs s"]) simp_all
  obtain r t where lt: "?loop = (r, t)" by (cases ?loop)
  show ?thesis using l lt by (cases r) (simp_all add: route_image_def Let_def)
qed

lemma for_each_dirs:
  assumes "\<And>x t. dirs (snd (body x t)) = dirs t"
  shows "dirs (snd (for_each body xs s)) = dirs s"
  by (rule for_each_always[where I = "\<lambda>t. dirs t = dirs s"]) (simp_all add: assms)

lemma flush_copy_dirs [simp]: "dirs (snd (flush_copy dir src s)) = dirs s"
  by (simp add: flush_copy_def)

lemma route_by_clusters_run:
  "snd (route_by_clusters io po records labels out_dir group_thr f)
     = snd (route_run io po records labels out_dir group_thr f)"
  "(\<exists>r. fst (route_by_clusters io po records labels out_dir group_thr f) = Inr r)
     \<longleftrightarrow> fst (route_run io po records labels out_dir group_thr f) = None"
  unfolding route_by_clusters_def route_run_def after_dirs_def Let_def
  by (auto split: prod.splits option.splits)

lemma after_dirs_dirs: "dirs s \<subseteq> dirs (snd (after_dirs io po records labels out_dir group_thr s))"
  unfolding after_dirs_def Let_def
  apply (rule and_then_always[where I = "\<lambda>t. dirs s \<subseteq> dirs t"])
   apply (rule for_each_always[where I = "\<lambda>t. dirs s \<subseteq> dirs t"])
    apply simp
   apply (meson ensure_dir_dirs subset_trans)
  apply (rule and_then_always[where I = "\<lambda>t. dirs s \<subseteq> dirs t"])
   apply (simp add: for_each_dirs route_image_dirs)
  apply (rule and_then_always[where I = "\<lambda>t. dirs s \<subseteq> dirs t"])
   apply (simp add: for_each_dirs)
  apply (rule and_then_always[where I = "\<lambda>t. dirs s \<subseteq> dirs t"])
   apply (simp add: for_each_dirs)
  apply simp
  done

lemma ensure_dir_ok_iff:
  "fst (ensure_dir p s) = None \<longleftrightarrow>
     p \<in> dirs s \<or> (\<not> (\<exists>q \<in> set (ancestors p). is_file s q)
                  \<and> \<not> (\<exists>q \<in> set (ancestors p). q \<notin> dirs s \<and> q \<in> denied s))"
  by (simp add: ensure_dir_def)

lemma ensure_dir_ok_mono:
  assumes "fst (ensure_dir p s) = None" "dirs s \<subseteq> dirs t" "files t = files s" "denied t = denied s"
  shows "fst (ensure_dir p t) = None"
  using assms unfolding ensure_dir_ok_iff is_file_def by auto

lemma ensure_dir_None:
  "fst (ensure_dir p s) = None \<Longrightarrow> ensure_dir p s = (None, snd (ensure_dir p s))"
  by (metis prod.collapse)

lemma init_state_fields [simp]:
  "dirs (init_state f) = dirs f" "files (init_state f) = files f"
  "denied (init_state f) = denied f" "journal (init_state f) = journal f"
  "log (init_state f) = []" "staged_group_only (init_state f) = []"
  "staged_unknown (init_state f) = []" "copied_person_image (init_state f) = {}"
  by (simp_all add: init_state_def)

lemma route_run_dirs_ok:
  assumes o: "fst (ensure_dir out_dir f) = None"
    and u: "fst (ensure_dir (joinpath out_dir ''__unknown__'') f) = None"
    and g: "fst (ensure_dir (joinpath out_dir ''__group_only__'') f) = None"
  shows "{out_dir, joinpath out_dir ''__unknown__'', joinpath out_dir ''__group_only__''}
           \<subseteq> dirs (snd (route_run io po records labels out_dir group_thr f))"
proof -
  let ?U = "joinpath out_dir ''__unknown__''" and ?G = "joinpath out_dir ''__group_only__''"
  let ?s0 = "init_state f"
  have o0: "fst (ensure_dir out_dir ?s0) = None"
    by (rule ensure_dir_ok_mono[OF o]) simp_all
  define s1 where "s1 = snd (ensure_dir out_dir ?s0)"
  have e1: "ensure_dir out_dir ?s0 = (None, s1)"
    unfolding s1_def by (rule ensure_dir_None[OF o0])
  have d1: "dirs f \<subseteq> dirs s1" using ensure_dir_dirs[of ?s0 out_dir] by (simp add: s1_def)
  have u1: "fst (ensure_dir ?U s1) = None"
    by (rule ensure_dir_ok_mono[OF u d1]) (simp_all add: s1_def)
  define s2 where "s2 = snd (ensure_dir ?U s1)"
  have e2: "ensure_dir ?U s1 = (None, s2)"
    unfolding s2_def by (rule ensure_dir_None[OF u1])
  have d2: "dirs s1 \<subseteq> dirs s2" using ensure_dir_dirs[of s1 ?U] by (simp add: s2_def)
  have g2: "fst (ensure_dir ?G s2) = None"
    by (rule ensure_dir_ok_mono[OF g]) (use d1 d2 in \<open>auto simp: s1_def s2_def\<close>)
  define s3 where "s3 = snd (ensure_dir ?G s2)"
  have e3: "ensure_dir ?G s2 = (None, s3)"
    unfolding s3_def by (rule ensure_dir_None[OF g2])
  have d3: "dirs s2 \<subseteq> dirs s3" using ensure_dir_dirs[of s2 ?G] by (simp add: s3_def)
  have run: "route_run io po records labels out_dir group_thr f
               = after_dirs io po records labels out_dir group_thr s3"
    by (simp add: route_run_def e1 e2 e3)
  have "out_dir \<in> dirs s1" "?U \<in> dirs s2" "?G \<in> dirs s3"
    using ensure_dir_result[OF e1] ensure_dir_result[OF e2] ensure_dir_result[OF e3] by simp_all
  then have "{out_dir, ?U, ?G} \<subseteq> dirs s3" using d2 d3 by auto
  then show ?thesis
    unfolding run using after_dirs_dirs[of s3 io po records labels out_dir group_thr] by blast
qed

lemma route_run_dirs_returned:
  assumes "fst (route_run io po records labels out_dir group_thr f) = None"
  shows "{out_dir, joinpath out_dir ''__unknown__'', joinpath out_dir ''__group_only__''}
           \<subseteq> dirs (snd (route_run io po records labels out_dir group_thr f))"
proof -
  let ?U = "joinpath out_dir ''__unknown__''" and ?G = "joinpath out_dir ''__group_only__''"
  obtain s' where r: "route_run io po records labels out_dir group_thr f = (None, s')"
    using assms by (metis prod.collapse)
  from r obtain s1 s2 s3 where
    e1: "ensure_dir out_dir (init_state f) = (None, s1)" and
    e2: "ensure_dir ?U s1 = (None, s2)" and
    e3: "ensure_dir ?G s2 = (None, s3)" and
    rest: "after_dirs io po records labels out_dir group_thr s3 = (None, s')"
    unfolding route_run_def and_then_None by blast
  have d2: "dirs s1 \<subseteq> dirs s2" using ensure_dir_dirs[of s1 ?U] e2 by simp
  have d3: "dirs s2 \<subseteq> dirs s3" using ensure_dir_dirs[of s2 ?G] e3 by simp
  have "out_dir \<in> dirs s1" "?U \<in> dirs s2" "?G \<in> dirs s3"
    using ensure_dir_result[OF e1] ensure_dir_result[OF e2] ensure_dir_result[OF e3] by simp_all
  then have "{out_dir, ?U, ?G} \<subseteq> dirs s3" using d2 d3 by auto
  then show ?thesis
    using after_dirs_dirs[of s3 io po records labels out_dir group_thr] rest r by auto
qed

subsection \<open>The fixed directories\<close>

text \<open>
  Claim C10. \<open>route_by_clusters\<close> creates the output root, \<^verbatim>\<open>__unknown__\<close> and
  \<^verbatim>\<open>__group_only__\<close> before it looks at any record. Whenever the three directories
  can be created in the file system the call starts from, they exist in the state the
  call leaves, whatever the records and labels are and even if a later statement raises;
  and they exist after every call that returns. A call with no records is an instance.
\<close>

theorem shared_dirs_created:
  "(fst (ensure_dir out_dir f) = None
      \<and> fst (ensure_dir (joinpath out_dir ''__unknown__'') f) = None
      \<and> fst (ensure_dir (joinpath out_dir ''__group_only__'') f) = None
    \<longrightarrow> {out_dir, joinpath out_dir ''__unknown__'', joinpath out_dir ''__group_only__''}
           \<subseteq> dirs (snd (route_by_clusters io po records labels out_dir group_thr f)))
   \<and> ((\<exists>r. fst (route_by_clusters io po records labels out_dir group_thr f) = Inr r)
    \<longrightarrow> {out_dir, joinpath out_dir ''__unknown__'', joinpath out_dir ''__group_only__''}
           \<subseteq> dirs (snd (route_by_clusters io po records labels out_dir group_thr f)))"
proof (intro conjI impI)
  assume "fst (ensure_dir out_dir f) = None
      \<and> fst (ensure_dir (joinpath out_dir ''__unknown__'') f) = None
      \<and> fst (ensure_dir (joinpath out_dir ''__group_only__'') f) = None"
  then show "{out_dir, joinpath out_dir ''__unknown__'', joinpath out_dir ''__group_only__''}
           \<subseteq> dirs (snd (route_by_clusters io po records labels out_dir group_thr f))"
    unfolding route_by_clusters_run(1) by (intro route_run_dirs_ok) simp_all
next
  assume "\<exists>r. fst (route_by_clusters io po records labels out_dir group_thr f) = Inr r"
  then have "fst (route_run io po records labels out_dir group_thr f) = None"
    by (simp only: route_by_clusters_run(2))
  then show "{out_dir, joinpath out_dir ''__unknown__'', joinpath out_dir ''__group_only__''}
           \<subseteq> dirs (snd (route_by_clusters io po records labels out_dir group_thr f))"
    unfolding route_by_clusters_run(1) by (rule route_run_dirs_returned)
qed

theorem shared_dirs_created_witness:
  "fst (ensure_dir [''out''] fs_empty) = None
   \<and> fst (ensure_dir (joinpath [''out''] ''__unknown__'') fs_empty) = None
   \<and> fst (ensure_dir (joinpath [''out''] ''__group_only__'') fs_empty) = None
   \<and> (\<exists>r. fst (route_by_clusters remdups remdups [] [] [''out''] 3 fs_empty) = Inr r)
   \<and> {[''out''], [''out'', ''__unknown__''], [''out'', ''__group_only__'']}
        \<subseteq> dirs (snd (route_by_clusters remdups remdups [] [] [''out''] 3 fs_empty))"
proof -
  have a: "fst (ensure_dir [''out''] fs_empty) = None"
    by (simp add: ensure_dir_def fs_empty_def is_file_def)
  have b: "fst (ensure_dir (joinpath [''out''] ''__unknown__'') fs_empty) = None"
    by (simp add: ensure_dir_def fs_empty_def is_file_def joinpath_def)
  have c: "fst (ensure_dir (joinpath [''out''] ''__group_only__'') fs_empty) = None"
    by (simp add: ensure_dir_def fs_empty_def is_file_def joinpath_def)
  have d0: "fst (route_by_clusters remdups remdups [] [] [''out''] 3 fs_empty)
              = Inr ([], [''out'', ''clustering_report.csv''], {})"
    by code_simp
  have d: "\<exists>r. fst (route_by_clusters remdups remdups [] [] [''out''] 3 fs_empty) = Inr r"
    unfolding d0 by blast
  have e: "joinpath [''out''] ''__unknown__'' = [''out'', ''__unknown__'']"
    "joinpath [''out''] ''__group_only__'' = [''out'', ''__group_only__'']"
    by (simp_all add: joinpath_def)
  show ?thesis
    using shared_dirs_created[of "[''out'']" fs_empty remdups remdups "[]" "[]" 3] a b c d
    unfolding e by simp
qed

lemma build_indices_Nil: "build_indices [] labels = ([], [])"
  by (simp add: build_indices_def)

subsection \<open>No face records\<close>

text \<open>
  Claim C8. With no face records the clusterer returns the empty label sequence and no
  error; there is no cluster, no eligible cluster and no name; and the pipeline of
  \<open>main\<close> ends with "no usable faces" and leaves the file system as it found it: no
  folder and no report is written.
\<close>

theorem empty_input_law:
  "cluster_faces fit_predict [] eps ms = Inr []
   \<and> build_indices [] labels = ([], [])
   \<and> eligible_clusters_of [] thr (fst (build_indices [] labels)) = {}
   \<and> cluster_to_name_of (eligible_clusters_of [] thr (fst (build_indices [] labels))) = []
   \<and> (collect_faces blurred detect fls = []
        \<longrightarrow> main blurred detect fit_predict io po a fls f = (Inr NoUsableFaces, f))"
  by (simp add: cluster_faces_def build_indices_Nil eligible_clusters_of_def
        cluster_to_name_of_def main_def)

theorem empty_input_law_witness:
  "collect_faces (\<lambda>p. True) (\<lambda>p. [face0]) [[''in'', ''a.jpg'']] = []
   \<and> main (\<lambda>p. True) (\<lambda>p. [face0]) strict_clusterer remdups remdups args0 [[''in'', ''a.jpg'']] fs_empty
       = (Inr NoUsableFaces, fs_empty)"
proof -
  have c: "collect_faces (\<lambda>p. True) (\<lambda>p. [face0]) [[''in'', ''a.jpg'']] = []"
    by (simp add: collect_faces_def)
  show ?thesis
    using empty_input_law[of strict_clusterer 0 0 "[]" 0 "\<lambda>p. True" "\<lambda>p. [face0]"
        "[[''in'', ''a.jpg'']]" remdups remdups args0 fs_empty] c
    by simp
qed

subsection \<open>Parameters are not validated\<close>

text \<open>
  Claim C7, as stated, fails: with \<open>min_samples = -1\<close> and one image on which no face is
  detected, \<open>main\<close> runs the extraction and ends normally; nothing fails.
\<close>

theorem invalid_min_samples_counterexample:
  "main (\<lambda>p. False) (\<lambda>p. []) strict_clusterer remdups remdups args0 [[''in'', ''a.jpg'']] fs_empty
     = (Inr NoUsableFaces, fs_empty)"
  by (simp add: main_def collect_faces_def records_of_image_def)

text \<open>
  Claim C7, amended. \<open>main\<close> checks no parameter. The extraction always runs first;
  when it yields no record the run ends normally whatever \<open>min_samples\<close> is; otherwise
  \<open>min_samples\<close> reaches the clustering call as given, and an error raised there ends
  the run before any routing, with the file system untouched.
\<close>

theorem parameters_reach_clusterer_unchecked:
  "(collect_faces blurred detect fls = []
      \<longrightarrow> main blurred detect fit_predict io po a fls f = (Inr NoUsableFaces, f))
   \<and> (collect_faces blurred detect fls \<noteq> []
        \<and> fit_predict (args_eps_sim a) (args_min_samples a)
             (map embedding (collect_faces blurred detect fls)) = Inl e
      \<longrightarrow> main blurred detect fit_predict io po a fls f = (Inl e, f))"
  by (simp add: main_def cluster_faces_def)

theorem parameters_reach_clusterer_unchecked_witness:
  "collect_faces (\<lambda>p. False) (\<lambda>p. []) [[''in'', ''a.jpg'']] = []
   \<and> main (\<lambda>p. False) (\<lambda>p. []) strict_clusterer remdups remdups args0 [[''in'', ''a.jpg'']] fs_empty
       = (Inr NoUsableFaces, fs_empty)
   \<and> collect_faces (\<lambda>p. False) (\<lambda>p. [face0]) [[''in'', ''a.jpg'']] \<noteq> []
   \<and> strict_clusterer (args_eps_sim args0) (args_min_samples args0)
        (map embedding (collect_faces (\<lambda>p. False) (\<lambda>p. [face0]) [[''in'', ''a.jpg'']]))
       = Inl InvalidParameterError
   \<and> main (\<lambda>p. False) (\<lambda>p. [face0]) strict_clusterer remdups remdups args0 [[''in'', ''a.jpg'']] fs_empty
       = (Inl InvalidParameterError, fs_empty)"
proof -
  have c1: "collect_faces (\<lambda>p. False) (\<lambda>p. []) [[''in'', ''a.jpg'']] = []"
    by (simp add: collect_faces_def records_of_image_def)
  have c2: "collect_faces (\<lambda>p. False) (\<lambda>p. [face0]) [[''in'', ''a.jpg'']] \<noteq> []"
    by (simp add: collect_faces_def records_of_image_def)
  have c3: "strict_clusterer (args_eps_sim args0) (args_min_samples args0)
        (map embedding (collect_faces (\<lambda>p. False) (\<lambda>p. [face0]) [[''in'', ''a.jpg'']]))
       = Inl InvalidParameterError"
    by (simp add: strict_clusterer_def args0_def)
  show ?thesis
    using parameters_reach_clusterer_unchecked[of "\<lambda>p. False" "\<lambda>p. []" "[[''in'', ''a.jpg'']]"
        strict_clusterer remdups remdups args0 fs_empty InvalidParameterError]
      parameters_reach_clusterer_unchecked[of "\<lambda>p. False" "\<lambda>p. [face0]" "[[''in'', ''a.jpg'']]"
        strict_clusterer remdups remdups args0 fs_empty InvalidParameterError]
      c1 c2 c3
    by simp
qed

section \<open>The index dictionaries\<close>

lemma map_of_setdefault_append:
  "map_of (setdefault_append k i d)
     = (map_of d)(k \<mapsto> (case map_of d k of None \<Rightarrow> [i] | Some v \<Rightarrow> v @ [i]))"
  by (induction d) (auto simp: fun_eq_iff)

lemma keys_setdefault_append:
  "map fst (setdefault_append k i d)
     = (if k \<in> set (map fst d) then map fst d else map fst d @ [k])"
  by (induction d) (force+)

lemma build_indices_fold:
  "fold (\<lambda>(idx, (rec, lab)) (ci, ii).
             (setdefault_append lab idx ci, setdefault_append (img_path rec) idx ii))
          (enumerate n zs) (ci, ii)
     = (fold (\<lambda>(i, k). setdefault_append k i) (enumerate n (map snd zs)) ci,
        fold (\<lambda>(i, k). setdefault_append k i) (enumerate n (map (\<lambda>z. img_path (fst z)) zs)) ii)"
  by (induction zs arbitrary: n ci ii) (auto split: prod.splits)

lemma build_indices_index_by:
  "build_indices records labels
     = (index_by (map snd (zip records labels)),
        index_by (map (\<lambda>z. img_path (fst z)) (zip records labels)))"
  by (simp add: build_indices_def index_by_def build_indices_fold)

lemma index_by_snoc:
  "index_by (ks @ [k]) = setdefault_append k (length ks) (index_by ks)"
  by (simp add: index_by_def enumerate_append_eq)

lemma index_by_Nil [simp]: "index_by [] = []"
  by (simp add: index_by_def)

lemma keys_index_by: "set (map fst (index_by ks)) = set ks"
  by (induction ks rule: rev_induct) (auto simp: index_by_snoc keys_setdefault_append)

lemma distinct_index_by: "distinct (map fst (index_by ks))"
  by (induction ks rule: rev_induct) (auto simp: index_by_snoc keys_setdefault_append)

lemma map_of_index_by:
  "map_of (index_by ks) k
     = (if k \<in> set ks then Some (filter (\<lambda>i. ks ! i = k) [0..<length ks]) else None)"
proof (induction ks rule: rev_induct)
  case Nil
  then show ?case by simp
next
  case (snoc x ks)
  have f: "filter (\<lambda>i. (ks @ [x]) ! i = k) [0..<length ks] = filter (\<lambda>i. ks ! i = k) [0..<length ks]"
    by (rule filter_cong) (auto simp: nth_append)
  have e: "y \<notin> set ks \<Longrightarrow> filter (\<lambda>i. ks ! i = y) [0..<length ks] = []" for y
    by (auto simp: filter_empty_conv)
  show ?case
    using snoc by (auto simp: index_by_snoc map_of_setdefault_append f e)
qed

lemma index_by_entry:
  "(k, idxs) \<in> set (index_by ks)
     \<longleftrightarrow> k \<in> set ks \<and> idxs = filter (\<lambda>i. ks ! i = k) [0..<length ks]"
proof -
  have "(k, idxs) \<in> set (index_by ks) \<longleftrightarrow> map_of (index_by ks) k = Some idxs"
    using distinct_index_by[of ks] by simp
  then show ?thesis by (auto simp: map_of_index_by)
qed

lemma zip_labels_nth:
  "i < min (length records) (length labels) \<Longrightarrow> map snd (zip records labels) ! i = labels ! i"
  by simp

lemma zip_paths_nth:
  "i < min (length records) (length labels)
     \<Longrightarrow> map (\<lambda>z. img_path (fst z)) (zip records labels) ! i = img_path (records ! i)"
  by simp

lemma cluster_entry:
  "(lab, idxs) \<in> set (fst (build_indices records labels))
     \<longleftrightarrow> (\<exists>i < min (length records) (length labels). labels ! i = lab)
         \<and> idxs = filter (\<lambda>i. labels ! i = lab) [0..<min (length records) (length labels)]"
proof -
  let ?n = "min (length records) (length labels)"
  let ?ls = "map snd (zip records labels)"
  have len: "length ?ls = ?n" by simp
  have f: "filter (\<lambda>i. ?ls ! i = lab) [0..<?n] = filter (\<lambda>i. labels ! i = lab) [0..<?n]"
    by (rule filter_cong) auto
  have m: "lab \<in> set ?ls \<longleftrightarrow> (\<exists>i < ?n. labels ! i = lab)"
    unfolding in_set_conv_nth len using zip_labels_nth[of _ records labels] by auto
  show ?thesis
    unfolding build_indices_index_by fst_conv index_by_entry len f m ..
qed

lemma image_entry:
  "(src, idxs) \<in> set (snd (build_indices records labels))
     \<longleftrightarrow> (\<exists>i < min (length records) (length labels). img_path (records ! i) = src)
         \<and> idxs = filter (\<lambda>i. img_path (records ! i) = src)
                    [0..<min (length records) (length labels)]"
proof -
  let ?n = "min (length records) (length labels)"
  let ?ps = "map (\<lambda>z. img_path (fst z)) (zip records labels)"
  have len: "length ?ps = ?n" by simp
  have f: "filter (\<lambda>i. ?ps ! i = src) [0..<?n] = filter (\<lambda>i. img_path (records ! i) = src) [0..<?n]"
    by (rule filter_cong) auto
  have m: "src \<in> set ?ps \<longleftrightarrow> (\<exists>i < ?n. img_path (records ! i) = src)"
    unfolding in_set_conv_nth len using zip_paths_nth[of _ records labels] by auto
  show ?thesis
    unfolding build_indices_index_by snd_conv index_by_entry len f m ..
qed

lemma image_keys_distinct: "distinct (map fst (snd (build_indices records labels)))"
  by (simp add: build_indices_index_by distinct_index_by)

lemma eligible_iff:
  "lab \<in> eligible_clusters_of records group_thr (fst (build_indices records labels))
     \<longleftrightarrow> lab \<noteq> - 1
         \<and> (\<exists>i < min (length records) (length labels).
               labels ! i = lab \<and> faces_in_image (records ! i) \<le> group_thr)"
proof -
  let ?n = "min (length records) (length labels)"
  have "lab \<in> eligible_clusters_of records group_thr (fst (build_indices records labels))
      \<longleftrightarrow> (\<exists>idxs. (lab, idxs) \<in> set (fst (build_indices records labels)) \<and> lab \<noteq> - 1
              \<and> (\<exists>i \<in> set idxs. faces_in_image (records ! i) \<le> group_thr))"
    unfolding eligible_clusters_of_def by force
  also have "\<dots> \<longleftrightarrow> lab \<noteq> - 1
         \<and> (\<exists>i < ?n. labels ! i = lab \<and> faces_in_image (records ! i) \<le> group_thr)"
    unfolding cluster_entry by auto
  finally show ?thesis .
qed

subsection \<open>Eligibility\<close>

text \<open>
  Claim C2. A label is classified eligible exactly when it is not the noise label and
  some record carrying it has \<open>faces_in_image \<le> group_thr\<close>; for a label that occurs
  this is the same as the minimum of \<open>faces_in_image\<close> over its records being at most
  \<open>group_thr\<close>; the noise label is never eligible. The records carrying a label are
  those paired with it by \<^verbatim>\<open>zip(records, labels)\<close>.
\<close>

theorem eligibility_rule:
  "(lab \<in> eligible_clusters_of records group_thr (fst (build_indices records labels))
      \<longleftrightarrow> lab \<noteq> - 1
          \<and> (\<exists>i < min (length records) (length labels).
                labels ! i = lab \<and> faces_in_image (records ! i) \<le> group_thr))
   \<and> (lab \<noteq> - 1 \<and> (\<exists>i < min (length records) (length labels). labels ! i = lab)
      \<longrightarrow> (lab \<in> eligible_clusters_of records group_thr (fst (build_indices records labels))
            \<longleftrightarrow> Min ((\<lambda>i. faces_in_image (records ! i))
                       ` {i. i < min (length records) (length labels) \<and> labels ! i = lab})
                  \<le> group_thr))
   \<and> - 1 \<notin> eligible_clusters_of records group_thr (fst (build_indices records labels))"
proof (intro conjI impI)
  show "lab \<in> eligible_clusters_of records group_thr (fst (build_indices records labels))
      \<longleftrightarrow> lab \<noteq> - 1
          \<and> (\<exists>i < min (length records) (length labels).
                labels ! i = lab \<and> faces_in_image (records ! i) \<le> group_thr)"
    by (rule eligible_iff)
next
  show "- 1 \<notin> eligible_clusters_of records group_thr (fst (build_indices records labels))"
    by (simp add: eligible_iff)
next
  let ?n = "min (length records) (length labels)"
  let ?M = "{i. i < ?n \<and> labels ! i = lab}"
  assume a: "lab \<noteq> - 1 \<and> (\<exists>i < ?n. labels ! i = lab)"
  have fin: "finite ((\<lambda>i. faces_in_image (records ! i)) ` ?M)" by simp
  have ne: "(\<lambda>i. faces_in_image (records ! i)) ` ?M \<noteq> {}" using a by auto
  have "Min ((\<lambda>i. faces_in_image (records ! i)) ` ?M) \<le> group_thr
          \<longleftrightarrow> (\<exists>i < ?n. labels ! i = lab \<and> faces_in_image (records ! i) \<le> group_thr)"
    unfolding Min_le_iff[OF fin ne] by auto
  then show "lab \<in> eligible_clusters_of records group_thr (fst (build_indices records labels))
            \<longleftrightarrow> Min ((\<lambda>i. faces_in_image (records ! i)) ` ?M) \<le> group_thr"
    using a by (simp add: eligible_iff)
qed

theorem eligibility_rule_witness:
  "(0::int) \<noteq> - 1
   \<and> (\<exists>i < min (length recs3) (length [0, 0, 1::int]). [0, 0, 1::int] ! i = 0)
   \<and> 0 \<in> eligible_clusters_of recs3 3 (fst (build_indices recs3 [0, 0, 1]))
   \<and> 1 \<notin> eligible_clusters_of recs3 3 (fst (build_indices recs3 [0, 0, 1]))
   \<and> Min ((\<lambda>i. faces_in_image (recs3 ! i))
            ` {i. i < min (length recs3) (length [0, 0, 1::int]) \<and> [0, 0, 1::int] ! i = 0}) \<le> 3"
proof -
  have h: "\<exists>i < min (length recs3) (length [0, 0, 1::int]). [0, 0, 1::int] ! i = 0"
    by (rule exI[of _ 0]) (simp add: recs3_def)
  have e0: "0 \<in> eligible_clusters_of recs3 3 (fst (build_indices recs3 [0, 0, 1]))"
    by code_simp
  have e1: "1 \<notin> eligible_clusters_of recs3 3 (fst (build_indices recs3 [0, 0, 1]))"
    by code_simp
  show ?thesis
    using eligibility_rule[of 0 recs3 3 "[0, 0, 1]"] h e0 e1 by simp
qed

section \<open>Naming\<close>

lemma digit_char: "d < 10 \<Longrightarrow> of_char (''0123456789'' ! d) = (48 + d :: nat)"
proof -
  assume "d < 10"
  then have "d = 0 \<or> d = 1 \<or> d = 2 \<or> d = 3 \<or> d = 4 \<or> d = 5 \<or> d = 6
    \<or> d = 7 \<or> d = 8 \<or> d = 9" by arith
  then show ?thesis by (elim disjE) simp_all
qed

lemma undec_snoc: "undec (s @ [c]) = 10 * undec s + (of_char c - 48)"
  by (simp add: undec_def)

lemma undec_dec: "undec (dec n) = n"
proof (induction n rule: dec.induct)
  case (1 n)
  show ?case
  proof (cases "n < 10")
    case True
    then show ?thesis by (subst dec.simps) (simp add: undec_def digit_char)
  next
    case False
    have m: "n mod 10 < 10" by simp
    have "undec (dec n) = 10 * undec (dec (n div 10)) + (of_char (''0123456789'' ! (n mod 10)) - 48)"
      using False by (subst dec.simps) (simp add: undec_snoc)
    also have "\<dots> = 10 * (n div 10) + n mod 10"
      using 1[OF False] digit_char[OF m] by simp
    finally show ?thesis by simp
  qed
qed

lemma undec_zeros: "undec (replicate k (CHR ''0'') @ s) = undec s"
proof -
  have z: "foldl (\<lambda>a c. 10 * a + (of_char c - 48)) (0::nat) (replicate k (CHR ''0'')) = 0"
    by (induction k) simp_all
  show ?thesis by (simp add: undec_def z)
qed

lemma person_name_inj: "person_name i = person_name j \<Longrightarrow> i = j"
proof -
  assume "person_name i = person_name j"
  then have "replicate (3 - length (dec i)) (CHR ''0'') @ dec i
           = replicate (3 - length (dec j)) (CHR ''0'') @ dec j"
    by (simp add: person_name_def)
  then have "undec (replicate (3 - length (dec i)) (CHR ''0'') @ dec i)
           = undec (replicate (3 - length (dec j)) (CHR ''0'') @ dec j)"
    by simp
  then show "i = j" by (simp only: undec_zeros undec_dec)
qed

lemma person_name_nonempty: "person_name i \<noteq> []"
  by (simp add: person_name_def)

lemma person_name_hd: "hd (person_name i) = CHR ''p''"
  by (simp add: person_name_def)

lemma finite_eligible: "finite (eligible_clusters_of records group_thr ci)"
  by (simp add: eligible_clusters_of_def)

lemma cluster_to_name_keys: "map fst (cluster_to_name_of E) = sorted_list_of_set E"
  unfolding cluster_to_name_of_def
  by (simp add: enumerate_eq_zip comp_def case_prod_unfold map_nth)

lemma map_snd_named:
  "map snd (map (\<lambda>(i, cl). (cl, person_name i)) ys) = map person_name (map fst ys)"
  by (induction ys) auto

lemma cluster_to_name_values:
  "map snd (cluster_to_name_of E) = map person_name [0..<card E]"
  unfolding cluster_to_name_of_def map_snd_named by (simp add: enumerate_eq_zip)

lemma eligible_iff_set:
  "lab \<in> eligible_clusters_of records group_thr (fst (build_indices records labels))
     \<longleftrightarrow> lab \<noteq> - 1
         \<and> (\<exists>p \<in> set (zip records labels). snd p = lab \<and> faces_in_image (fst p) \<le> group_thr)"
proof -
  have "(\<exists>p \<in> set (zip records labels). snd p = lab \<and> faces_in_image (fst p) \<le> group_thr)
      \<longleftrightarrow> (\<exists>i < min (length records) (length labels).
               labels ! i = lab \<and> faces_in_image (records ! i) \<le> group_thr)"
    unfolding set_zip by fastforce
  then show ?thesis unfolding eligible_iff by simp
qed

text \<open>
  Claim C6. The eligible labels are named in ascending order: the keys of the naming are
  the eligible labels, sorted and without repetition, and the name of the \<open>i\<close>-th is
  \<open>person_name i\<close>, the decimal numeral of \<open>i\<close> padded with zeros to three digits; names
  of different positions differ. The naming is a function of the set of eligible labels
  alone, and that set does not depend on the order of the records: two inputs pairing the
  same records with the same labels get the same naming.
\<close>

theorem naming_deterministic:
  "sorted (map fst (cluster_to_name_of
             (eligible_clusters_of records group_thr (fst (build_indices records labels)))))
   \<and> distinct (map fst (cluster_to_name_of
             (eligible_clusters_of records group_thr (fst (build_indices records labels)))))
   \<and> set (map fst (cluster_to_name_of
             (eligible_clusters_of records group_thr (fst (build_indices records labels)))))
       = eligible_clusters_of records group_thr (fst (build_indices records labels))
   \<and> map snd (cluster_to_name_of
             (eligible_clusters_of records group_thr (fst (build_indices records labels))))
       = map person_name
           [0..<card (eligible_clusters_of records group_thr (fst (build_indices records labels)))]
   \<and> person_name 0 = ''person_000'' \<and> person_name 1 = ''person_001''
   \<and> person_name 12 = ''person_012'' \<and> person_name 1000 = ''person_1000''
   \<and> (\<forall>i j. person_name i = person_name j \<longrightarrow> i = j)
   \<and> (set (zip records labels) = set (zip records' labels')
       \<longrightarrow> cluster_to_name_of
             (eligible_clusters_of records group_thr (fst (build_indices records labels)))
           = cluster_to_name_of
             (eligible_clusters_of records' group_thr (fst (build_indices records' labels'))))"
proof -
  let ?E = "eligible_clusters_of records group_thr (fst (build_indices records labels))"
  let ?E' = "eligible_clusters_of records' group_thr (fst (build_indices records' labels'))"
  have fin: "finite ?E" by (rule finite_eligible)
  have k: "map fst (cluster_to_name_of ?E) = sorted_list_of_set ?E"
    by (rule cluster_to_name_keys)
  have a: "sorted (map fst (cluster_to_name_of ?E))" unfolding k by simp
  have b: "distinct (map fst (cluster_to_name_of ?E))" unfolding k by simp
  have c: "set (map fst (cluster_to_name_of ?E)) = ?E" unfolding k using fin by simp
  have d: "map snd (cluster_to_name_of ?E) = map person_name [0..<card ?E]"
    by (rule cluster_to_name_values)
  have e: "person_name 0 = ''person_000''" "person_name 1 = ''person_001''"
    "person_name 12 = ''person_012''" "person_name 1000 = ''person_1000''"
    by code_simp+
  have f: "\<forall>i j. person_name i = person_name j \<longrightarrow> i = j"
    using person_name_inj by blast
  have g: "set (zip records labels) = set (zip records' labels')
       \<longrightarrow> cluster_to_name_of ?E = cluster_to_name_of ?E'"
  proof
    assume z: "set (zip records labels) = set (zip records' labels')"
    have "?E = ?E'"
      by (rule set_eqI) (simp only: eligible_iff_set z)
    then show "cluster_to_name_of ?E = cluster_to_name_of ?E'" by simp
  qed
  show ?thesis using a b c d e f g by (intro conjI)
qed

theorem naming_deterministic_witness:
  "set (zip recs3 [0, 0, 1]) = set (zip (rev recs3) [1, 0, 0::int])
   \<and> cluster_to_name_of (eligible_clusters_of recs3 3 (fst (build_indices recs3 [0, 0, 1])))
       = [(0, ''person_000'')]
   \<and> cluster_to_name_of
         (eligible_clusters_of (rev recs3) 3 (fst (build_indices (rev recs3) [1, 0, 0])))
       = [(0, ''person_000'')]
   \<and> person_name 0 \<noteq> person_name 1"
proof -
  have z: "set (zip recs3 [0, 0, 1]) = set (zip (rev recs3) [1, 0, 0::int])"
    by (simp add: recs3_def insert_commute)
  have v: "cluster_to_name_of (eligible_clusters_of recs3 3 (fst (build_indices recs3 [0, 0, 1])))
       = [(0, ''person_000'')]"
    by code_simp
  have n: "(0::nat) \<noteq> 1" by simp
  show ?thesis
    using naming_deterministic[of recs3 3 "[0, 0, 1]" "rev recs3" "[1, 0, 0]"] z v n
    by metis
qed

section \<open>Copies\<close>

lemma grown_refl [simp]: "grown s s"
  by (simp add: grown_def)

lemma grown_trans: "grown s t \<Longrightarrow> grown t u \<Longrightarrow> grown s u"
proof -
  assume a: "grown s t" and b: "grown t u"
  have "dom (files s) \<subseteq> dom (files u)"
    using a b unfolding grown_def by (meson subset_trans)
  moreover have "dirs u = dirs s" "denied u = denied s"
    using a b by (simp_all add: grown_def)
  ultimately show "grown s u" by (simp add: grown_def)
qed

lemma same_tree_refl [simp]: "same_tree s s"
  by (simp add: same_tree_def)

lemma same_tree_trans: "same_tree s t \<Longrightarrow> same_tree t u \<Longrightarrow> same_tree s u"
  by (auto simp: same_tree_def)

lemma same_tree_grown: "same_tree s t \<Longrightarrow> grown s t"
  by (auto simp: same_tree_def grown_def)

lemma is_file_grown: "grown s t \<Longrightarrow> is_file s p \<Longrightarrow> is_file t p"
  by (auto simp: grown_def is_file_def)

lemma copy_target_grown: "grown s t \<Longrightarrow> copy_target t src dst = copy_target s src dst"
  by (simp add: grown_def copy_target_def)

lemma stable_grown: "stable s src dst \<Longrightarrow> grown s t \<Longrightarrow> stable t src dst"
  unfolding stable_def
  by (auto simp: copy_target_grown is_file_grown) (auto simp: grown_def)

lemma stable_exists: "stable s src dst \<Longrightarrow> exists_path s dst"
  by (auto simp: stable_def exists_path_def copy_target_def split: if_splits)

lemma stable_is_file: "stable s src dst \<Longrightarrow> dst \<notin> dirs s \<Longrightarrow> is_file s dst"
  by (auto simp: stable_def copy_target_def)

lemma copy2_grown: "grown s (snd (copy2 src dst s))"
  by (auto simp: copy2_def Let_def grown_def split: option.splits)

lemma copy_if_absent_grown: "grown s (snd (copy_if_absent src dst s))"
  by (simp add: copy_if_absent_def copy2_grown)

lemma copy2_success:
  "copy2 src dst s = (None, s') \<Longrightarrow>
     is_file s src \<and> src \<noteq> copy_target s src dst \<and> src \<notin> denied s
     \<and> copy_target s src dst \<notin> denied s \<and> copy_target s src dst \<notin> dirs s
     \<and> parent (copy_target s src dst) \<in> dirs s
     \<and> s' = s\<lparr>files := (files s)(copy_target s src dst \<mapsto> the (files s src)),
               journal := journal s @ [(src, dst)]\<rparr>"
  by (auto simp: copy2_def Let_def is_file_def split: option.splits if_splits)

lemma copy_if_absent_stable:
  assumes "copy_if_absent src dst s = (None, s')"
  shows "stable s' src dst"
proof (cases "is_file s dst")
  case True
  then show ?thesis using assms by (auto simp: copy_if_absent_def stable_def)
next
  case False
  then have c: "copy2 src dst s = (None, s')" using assms by (simp add: copy_if_absent_def)
  note f = copy2_success[OF c]
  have t: "copy_target s' src dst = copy_target s src dst"
    using f by (simp add: copy_target_def)
  have "is_file s' (copy_target s src dst)" using f by (simp add: is_file_def)
  moreover have "is_file s' src" using f by (simp add: is_file_def)
  moreover have "dirs s' = dirs s" "denied s' = denied s" using f by simp_all
  ultimately show ?thesis unfolding stable_def t using f by simp
qed

lemma copy_if_absent_when_stable:
  assumes "stable s src dst"
  shows "\<exists>s'. copy_if_absent src dst s = (None, s') \<and> same_tree s s'"
proof (cases "is_file s dst")
  case True
  then show ?thesis by (simp add: copy_if_absent_def)
next
  case False
  then have a: "is_file s src" "src \<noteq> copy_target s src dst" "src \<notin> denied s"
    "copy_target s src dst \<notin> denied s" "copy_target s src dst \<notin> dirs s"
    "parent (copy_target s src dst) \<in> dirs s" "is_file s (copy_target s src dst)"
    using assms by (auto simp: stable_def)
  obtain c where c: "files s src = Some c" using a(1) by (auto simp: is_file_def)
  have "copy2 src dst s = (None, s\<lparr>files := (files s)(copy_target s src dst \<mapsto> c),
               journal := journal s @ [(src, dst)]\<rparr>)"
    using a c by (simp add: copy2_def Let_def)
  moreover have "same_tree s (s\<lparr>files := (files s)(copy_target s src dst \<mapsto> c),
               journal := journal s @ [(src, dst)]\<rparr>)"
    using a(7) by (auto simp: same_tree_def is_file_def)
  ultimately show ?thesis using False by (simp add: copy_if_absent_def)
qed

lemma copy_if_absent_journal:
  "journal (snd (copy_if_absent src dst s)) = journal s
   \<or> (\<not> is_file s dst \<and> journal (snd (copy_if_absent src dst s)) = journal s @ [(src, dst)])"
  by (auto simp: copy_if_absent_def copy2_def Let_def split: option.splits)

lemma copy_if_absent_locals [simp]:
  "copied_person_image (snd (copy_if_absent src dst s)) = copied_person_image s"
  "staged_group_only (snd (copy_if_absent src dst s)) = staged_group_only s"
  "staged_unknown (snd (copy_if_absent src dst s)) = staged_unknown s"
  "log (snd (copy_if_absent src dst s)) = log s"
  by (auto simp: copy_if_absent_def copy2_def Let_def split: option.splits)

lemma ensure_dir_locals [simp]:
  "copied_person_image (snd (ensure_dir p s)) = copied_person_image s"
  "staged_group_only (snd (ensure_dir p s)) = staged_group_only s"
  "staged_unknown (snd (ensure_dir p s)) = staged_unknown s"
  "log (snd (ensure_dir p s)) = log s"
  by (simp_all add: ensure_dir_def)

lemma write_file_grown: "grown s (snd (write_file p c s))"
  by (auto simp: write_file_def grown_def)

lemma write_file_journal [simp]: "journal (snd (write_file p c s)) = journal s"
  by (simp add: write_file_def)

section \<open>Decisions\<close>

lemma set_labs_on_image:
  "set_order io \<Longrightarrow> set (labs_on_image io labels idxs) = labs_of labels idxs"
  by (simp add: set_order_def labs_on_image_def labs_of_def)

lemma set_eligible_on_image:
  "set_order io \<Longrightarrow>
     set (eligible_on_image io E (labs_on_image io labels idxs)) = {lab. to_person E labels idxs lab}"
  by (auto simp: set_order_def eligible_on_image_def labs_on_image_def to_person_def labs_of_def)

lemma distinct_eligible_on_image:
  "set_order io \<Longrightarrow> distinct (eligible_on_image io E labs)"
  by (simp add: set_order_def eligible_on_image_def)

lemma ineligible_nonempty:
  assumes "set_order io"
  shows "ineligible_on_image io E (labs_on_image io labels idxs) \<noteq> [] \<longleftrightarrow> to_group_only E labels idxs"
proof -
  have "set (ineligible_on_image io E (labs_on_image io labels idxs))
          = {l \<in> labs_of labels idxs. l \<notin> E \<and> l \<noteq> - 1}"
    using assms by (auto simp: set_order_def ineligible_on_image_def labs_on_image_def labs_of_def)
  then have "set (ineligible_on_image io E (labs_on_image io labels idxs)) \<noteq> {}
          \<longleftrightarrow> to_group_only E labels idxs"
    by (auto simp: to_group_only_def)
  then show ?thesis by simp
qed

lemma no_cluster_iff:
  assumes "set_order io"
  shows "\<not> has_any_cluster (labs_on_image io labels idxs) \<longleftrightarrow> to_unknown labels idxs"
  unfolding has_any_cluster_def to_unknown_def set_labs_on_image[OF assms, symmetric]
  by (auto simp: filter_empty_conv)

lemma decisions_cover:
  "to_unknown labels idxs \<or> to_group_only E labels idxs \<or> (\<exists>lab. to_person E labels idxs lab)"
  by (auto simp: to_unknown_def to_group_only_def to_person_def)

lemma unknown_excludes:
  "to_unknown labels idxs \<Longrightarrow> - 1 \<notin> E \<Longrightarrow>
     \<not> to_group_only E labels idxs \<and> \<not> (\<exists>lab. to_person E labels idxs lab)"
  by (auto simp: to_unknown_def to_group_only_def to_person_def)

lemma stable_fs_eq:
  "dirs t = dirs s \<Longrightarrow> files t = files s \<Longrightarrow> denied t = denied s
     \<Longrightarrow> stable t src dst = stable s src dst"
  by (simp add: stable_def is_file_def copy_target_def)

lemma grown_fs_eq:
  "dirs t = dirs s \<Longrightarrow> files t = files s \<Longrightarrow> denied t = denied s \<Longrightarrow> grown s t"
  by (simp add: grown_def)

lemma advanced_refl [simp]: "advanced s s"
  by (simp add: advanced_def)

lemma advanced_trans: "advanced s t \<Longrightarrow> advanced t u \<Longrightarrow> advanced s u"
  unfolding advanced_def using grown_trans by blast

lemma copied_ok_advanced:
  "copied_ok out_dir s \<Longrightarrow> grown s t \<Longrightarrow> copied_person_image t = copied_person_image s
     \<Longrightarrow> copied_ok out_dir t"
  unfolding copied_ok_def using stable_grown by fastforce

section \<open>The loops of the router\<close>

lemma copy_to_person_cases:
  obtains (missing) "map_of c2n lab = None"
      "copy_to_person records labels out_dir c2n src idxs lab s = (Some KeyError, s)"
  | (seen) person where "map_of c2n lab = Some person" "(person, src) \<in> copied_person_image s"
      "copy_to_person records labels out_dir c2n src idxs lab s
         = (None, s\<lparr>log := log s @ log_rows records labels src idxs (\<lambda>l. l = lab)
                                    person ''eligible_person_image''\<rparr>)"
  | (failed) person e t where "map_of c2n lab = Some person"
      "(person, src) \<notin> copied_person_image s"
      "copy_if_absent src (person_dst out_dir person src) s = (Some e, t)"
      "copy_to_person records labels out_dir c2n src idxs lab s = (Some e, t)"
  | (copied) person t where "map_of c2n lab = Some person"
      "(person, src) \<notin> copied_person_image s"
      "copy_if_absent src (person_dst out_dir person src) s = (None, t)"
      "copy_to_person records labels out_dir c2n src idxs lab s
         = (None, t\<lparr>copied_person_image := insert (person, src) (copied_person_image t),
                     log := log t @ log_rows records labels src idxs (\<lambda>l. l = lab)
                                    person ''eligible_person_image''\<rparr>)"
proof (cases "map_of c2n lab")
  case None
  then show ?thesis using missing by (simp add: copy_to_person_def)
next
  case (Some person)
  show ?thesis
  proof (cases "(person, src) \<in> copied_person_image s")
    case True
    then show ?thesis using seen[OF Some] Some by (simp add: copy_to_person_def)
  next
    case False
    obtain r t where c: "copy_if_absent src (person_dst out_dir person src) s = (r, t)"
      by (cases "copy_if_absent src (person_dst out_dir person src) s")
    show ?thesis
    proof (cases r)
      case None
      then show ?thesis using copied[OF Some False] c Some False
        by (simp add: copy_to_person_def)
    next
      case (Some e)
      then show ?thesis using failed[OF \<open>map_of c2n lab = Some person\<close> False] c
          \<open>map_of c2n lab = Some person\<close> False
        by (simp add: copy_to_person_def)
    qed
  qed
qed

lemma copy_to_person_advanced:
  "advanced s (snd (copy_to_person records labels out_dir c2n src idxs lab s))"
proof (cases rule: copy_to_person_cases[of c2n lab records labels out_dir src idxs s])
  case missing
  then show ?thesis by simp
next
  case (seen person)
  then show ?thesis by (simp add: advanced_def grown_def)
next
  case (failed person e t)
  then show ?thesis
    using copy_if_absent_grown[of s src "person_dst out_dir person src"]
      copy_if_absent_locals[of src "person_dst out_dir person src" s]
    by (simp add: advanced_def)
next
  case (copied person t)
  then show ?thesis
    using copy_if_absent_grown[of s src "person_dst out_dir person src"]
      copy_if_absent_locals[of src "person_dst out_dir person src" s]
    by (simp add: advanced_def grown_def)
qed

lemma copy_to_person_staged:
  "staged_group_only (snd (copy_to_person records labels out_dir c2n src idxs lab s))
     = staged_group_only s
   \<and> staged_unknown (snd (copy_to_person records labels out_dir c2n src idxs lab s))
     = staged_unknown s"
proof (cases rule: copy_to_person_cases[of c2n lab records labels out_dir src idxs s])
  case missing
  then show ?thesis by simp
next
  case (seen person)
  then show ?thesis by simp
next
  case (failed person e t)
  then show ?thesis
    using copy_if_absent_locals[of src "person_dst out_dir person src" s] by simp
next
  case (copied person t)
  then show ?thesis
    using copy_if_absent_locals[of src "person_dst out_dir person src" s] by simp
qed

lemma copy_to_person_settles:
  assumes run: "copy_to_person records labels out_dir c2n src idxs lab s = (None, s')"
    and ok: "copied_ok out_dir s"
  shows "copied_ok out_dir s'
     \<and> (\<exists>person. map_of c2n lab = Some person \<and> stable s' src (person_dst out_dir person src))"
proof (cases rule: copy_to_person_cases[of c2n lab records labels out_dir src idxs s])
  case missing
  then show ?thesis using run by simp
next
  case (seen person)
  let ?u = "s\<lparr>log := log s @ log_rows records labels src idxs (\<lambda>l. l = lab)
                                    person ''eligible_person_image''\<rparr>"
  have s': "s' = ?u" using seen(3) run by simp
  have st: "stable ?u a b = stable s a b" for a b
    by (rule stable_fs_eq) simp_all
  have "stable s src (person_dst out_dir person src)"
    using ok seen(2) unfolding copied_ok_def by fastforce
  moreover have "copied_ok out_dir ?u"
    using ok unfolding copied_ok_def st by simp
  ultimately show ?thesis unfolding s' using seen(1) st by simp
next
  case (failed person e t)
  then show ?thesis using run by simp
next
  case (copied person t)
  let ?u = "t\<lparr>copied_person_image := insert (person, src) (copied_person_image t),
                     log := log t @ log_rows records labels src idxs (\<lambda>l. l = lab)
                                    person ''eligible_person_image''\<rparr>"
  have s': "s' = ?u" using copied(4) run by simp
  have st: "stable ?u a b = stable t a b" for a b
    by (rule stable_fs_eq) simp_all
  have new: "stable t src (person_dst out_dir person src)"
    by (rule copy_if_absent_stable[OF copied(3)])
  have g: "grown s t"
    using copy_if_absent_grown[of s src "person_dst out_dir person src"] copied(3) by simp
  have c: "copied_person_image t = copied_person_image s"
    using copy_if_absent_locals(1)[of src "person_dst out_dir person src" s] copied(3) by simp
  have old: "copied_ok out_dir t"
    by (rule copied_ok_advanced[OF ok g c])
  have "copied_ok out_dir ?u"
    using old new unfolding copied_ok_def st by auto
  then show ?thesis unfolding s' using copied(1) new st by simp
qed

lemma person_loop_advanced:
  "advanced s (snd (for_each (copy_to_person records labels out_dir c2n src idxs) labs s))"
proof (rule for_each_always[where I = "advanced s"])
  show "advanced s s" by simp
next
  fix x t assume "advanced s t"
  then show "advanced s (snd (copy_to_person records labels out_dir c2n src idxs x t))"
    using copy_to_person_advanced advanced_trans by blast
qed

lemma route_image_tail:
  assumes "for_each (copy_to_person records labels out_dir c2n (fst item) (snd item))
             (eligible_on_image io E (labs_on_image io labels (snd item))) s = (None, t)"
  shows "\<exists>l1 l2.
     route_image io records labels out_dir E c2n item s =
       (None, t\<lparr>staged_group_only :=
                   (if ineligible_on_image io E (labs_on_image io labels (snd item)) \<noteq> []
                    then staged_group_only t @ [fst item] else staged_group_only t),
                 staged_unknown :=
                   (if \<not> has_any_cluster (labs_on_image io labels (snd item))
                    then staged_unknown t @ [fst item] else staged_unknown t),
                 log := log t @ l1 @ l2\<rparr>)"
proof -
  let ?inel = "ineligible_on_image io E (labs_on_image io labels (snd item)) \<noteq> []"
  let ?unk = "\<not> has_any_cluster (labs_on_image io labels (snd item))"
  show ?thesis
  proof (cases ?inel; cases ?unk)
    assume a: "?inel" "?unk"
    show ?thesis
      apply (rule exI[of _ "log_rows records labels (fst item) (snd item)
               (\<lambda>l. l \<in> set (ineligible_on_image io E (labs_on_image io labels (snd item))))
               ''__group_only__'' ''group_only_person_on_image''"])
      apply (rule exI[of _ "log_rows records labels (fst item) (snd item) (\<lambda>l. l = - 1)
               ''__unknown__'' ''noise_only_image''"])
      using a assms by (simp add: route_image_def Let_def)
  next
    assume a: "?inel" "\<not> ?unk"
    show ?thesis
      apply (rule exI[of _ "log_rows records labels (fst item) (snd item)
               (\<lambda>l. l \<in> set (ineligible_on_image io E (labs_on_image io labels (snd item))))
               ''__group_only__'' ''group_only_person_on_image''"])
      apply (rule exI[of _ "[]"])
      using a assms by (simp add: route_image_def Let_def)
  next
    assume a: "\<not> ?inel" "?unk"
    show ?thesis
      apply (rule exI[of _ "[]"])
      apply (rule exI[of _ "log_rows records labels (fst item) (snd item) (\<lambda>l. l = - 1)
               ''__unknown__'' ''noise_only_image''"])
      using a assms by (simp add: route_image_def Let_def)
  next
    assume a: "\<not> ?inel" "\<not> ?unk"
    show ?thesis
      apply (rule exI[of _ "[]"])
      apply (rule exI[of _ "[]"])
      using a assms by (simp add: route_image_def Let_def)
  qed
qed

lemma route_image_raise:
  assumes "for_each (copy_to_person records labels out_dir c2n (fst item) (snd item))
             (eligible_on_image io E (labs_on_image io labels (snd item))) s = (Some e, t)"
  shows "route_image io records labels out_dir E c2n item s = (Some e, t)"
  using assms by (simp add: route_image_def Let_def)

lemma route_image_advanced:
  "advanced s (snd (route_image io records labels out_dir E c2n item s))"
proof -
  let ?L = "for_each (copy_to_person records labels out_dir c2n (fst item) (snd item))
             (eligible_on_image io E (labs_on_image io labels (snd item))) s"
  obtain r t where l: "?L = (r, t)" by (cases ?L)
  have a: "advanced s t" using person_loop_advanced[of s records labels out_dir c2n "fst item"
        "snd item" "eligible_on_image io E (labs_on_image io labels (snd item))"] l by simp
  show ?thesis
  proof (cases r)
    case None
    obtain l1 l2 where "route_image io records labels out_dir E c2n item s =
       (None, t\<lparr>staged_group_only :=
                   (if ineligible_on_image io E (labs_on_image io labels (snd item)) \<noteq> []
                    then staged_group_only t @ [fst item] else staged_group_only t),
                 staged_unknown :=
                   (if \<not> has_any_cluster (labs_on_image io labels (snd item))
                    then staged_unknown t @ [fst item] else staged_unknown t),
                 log := log t @ l1 @ l2\<rparr>)"
      using route_image_tail[of records labels out_dir c2n item io E s t] l None by blast
    then show ?thesis using a by (auto simp: advanced_def grown_def)
  next
    case (Some e)
    then show ?thesis using route_image_raise[of records labels out_dir c2n item io E s e t] l a
      by simp
  qed
qed

lemma placed_or_staged_advanced:
  "placed_or_staged out_dir c2n E labels item s \<Longrightarrow> advanced s t
     \<Longrightarrow> placed_or_staged out_dir c2n E labels item t"
  unfolding placed_or_staged_def advanced_def using stable_grown by blast

lemma person_loop_settles:
  assumes run: "for_each (copy_to_person records labels out_dir c2n src idxs) labs s = (None, t)"
    and ok: "copied_ok out_dir s"
  shows "copied_ok out_dir t
     \<and> (\<forall>lab \<in> set labs. \<exists>person. map_of c2n lab = Some person
                              \<and> stable t src (person_dst out_dir person src))"
proof (rule for_each_success[OF run, where I = "copied_ok out_dir"
      and Q = "\<lambda>lab u. \<exists>person. map_of c2n lab = Some person
                              \<and> stable u src (person_dst out_dir person src)"])
  show "copied_ok out_dir s" by (rule ok)
next
  fix x u u'
  assume "copied_ok out_dir u" "copy_to_person records labels out_dir c2n src idxs x u = (None, u')"
  then show "copied_ok out_dir u'
     \<and> (\<exists>person. map_of c2n x = Some person \<and> stable u' src (person_dst out_dir person src))"
    using copy_to_person_settles by blast
next
  fix x y u u'
  assume q: "\<exists>person. map_of c2n y = Some person \<and> stable u src (person_dst out_dir person src)"
    and c: "copy_to_person records labels out_dir c2n src idxs x u = (None, u')"
  have "advanced u u'"
    using copy_to_person_advanced[of u records labels out_dir c2n src idxs x] c by simp
  then have "grown u u'" by (simp add: advanced_def)
  then show "\<exists>person. map_of c2n y = Some person \<and> stable u' src (person_dst out_dir person src)"
    using q stable_grown by blast
qed

lemma route_image_settles:
  assumes run: "route_image io records labels out_dir E c2n item s = (None, s')"
    and ok: "copied_ok out_dir s" and io: "set_order io"
  shows "copied_ok out_dir s' \<and> placed_or_staged out_dir c2n E labels item s'"
proof -
  let ?labs = "eligible_on_image io E (labs_on_image io labels (snd item))"
  let ?L = "for_each (copy_to_person records labels out_dir c2n (fst item) (snd item)) ?labs s"
  obtain r t where l: "?L = (r, t)" by (cases ?L)
  have r: "r = None"
  proof (cases r)
    case (Some e)
    then show ?thesis
      using route_image_raise[of records labels out_dir c2n item io E s e t] l run by simp
  qed simp
  have lt: "?L = (None, t)" using l r by simp
  obtain l1 l2 where s': "s' = t\<lparr>staged_group_only :=
                   (if ineligible_on_image io E (labs_on_image io labels (snd item)) \<noteq> []
                    then staged_group_only t @ [fst item] else staged_group_only t),
                 staged_unknown :=
                   (if \<not> has_any_cluster (labs_on_image io labels (snd item))
                    then staged_unknown t @ [fst item] else staged_unknown t),
                 log := log t @ l1 @ l2\<rparr>"
    using route_image_tail[OF lt] run by auto
  have st: "stable s' a b = stable t a b" for a b
    unfolding s' by (rule stable_fs_eq) simp_all
  have cp: "copied_person_image s' = copied_person_image t" unfolding s' by simp
  note p = person_loop_settles[OF lt ok]
  have c: "copied_ok out_dir s'"
    using p unfolding copied_ok_def st cp by simp
  have a: "\<forall>lab. to_person E labels (snd item) lab \<longrightarrow>
        (\<exists>person. map_of c2n lab = Some person
                  \<and> stable s' (fst item) (person_dst out_dir person (fst item)))"
    using p set_eligible_on_image[OF io, of E labels "snd item"] unfolding st by blast
  have g: "to_group_only E labels (snd item) \<longrightarrow> fst item \<in> set (staged_group_only s')"
    unfolding ineligible_nonempty[OF io, symmetric] s' by simp
  have u: "to_unknown labels (snd item) \<longrightarrow> fst item \<in> set (staged_unknown s')"
    unfolding no_cluster_iff[OF io, symmetric] s' by simp
  show ?thesis using c a g u unfolding placed_or_staged_def by simp
qed

lemma images_loop_settles:
  assumes run: "for_each (route_image io records labels out_dir E c2n) items s = (None, s')"
    and ok: "copied_ok out_dir s" and io: "set_order io"
  shows "\<forall>item \<in> set items. placed_or_staged out_dir c2n E labels item s'"
proof -
  have "copied_ok out_dir s' \<and> (\<forall>item \<in> set items. placed_or_staged out_dir c2n E labels item s')"
  proof (rule for_each_success[OF run, where I = "copied_ok out_dir"])
    show "copied_ok out_dir s" by (rule ok)
  next
    fix x u u'
    assume "copied_ok out_dir u" "route_image io records labels out_dir E c2n x u = (None, u')"
    then show "copied_ok out_dir u' \<and> placed_or_staged out_dir c2n E labels x u'"
      using route_image_settles[OF _ _ io] by blast
  next
    fix x y u u'
    assume q: "placed_or_staged out_dir c2n E labels y u"
      and c: "route_image io records labels out_dir E c2n x u = (None, u')"
    have "advanced u u'"
      using route_image_advanced[of u io records labels out_dir E c2n x] c by simp
    then show "placed_or_staged out_dir c2n E labels y u'"
      using q placed_or_staged_advanced by blast
  qed
  then show ?thesis by simp
qed

lemma flush_copy_advanced: "advanced s (snd (flush_copy dir src s))"
  unfolding flush_copy_def advanced_def
  using copy_if_absent_grown[of s src "joinpath dir (name_of src)"] by simp

lemma flush_loop_advanced: "advanced s (snd (for_each (flush_copy dir) xs s))"
proof (rule for_each_always[where I = "advanced s"])
  show "advanced s s" by simp
next
  fix x t assume "advanced s t"
  then show "advanced s (snd (flush_copy dir x t))"
    using flush_copy_advanced advanced_trans by blast
qed

lemma flush_loop_settles:
  assumes run: "for_each (flush_copy dir) xs s = (None, s')"
  shows "\<forall>src \<in> set xs. stable s' src (joinpath dir (name_of src))"
proof -
  have "True \<and> (\<forall>src \<in> set xs. stable s' src (joinpath dir (name_of src)))"
  proof (rule for_each_success[OF run, where I = "\<lambda>u. True"])
    fix x u u'
    assume "flush_copy dir x u = (None, u')"
    then show "True \<and> stable u' x (joinpath dir (name_of x))"
      using copy_if_absent_stable by (simp add: flush_copy_def)
  next
    fix x y u u'
    assume q: "stable u y (joinpath dir (name_of y))" and c: "flush_copy dir x u = (None, u')"
    have "grown u u'"
      using copy_if_absent_grown[of u x "joinpath dir (name_of x)"] c by (simp add: flush_copy_def)
    then show "stable u' y (joinpath dir (name_of y))" using q stable_grown by blast
  qed simp
  then show ?thesis by simp
qed

lemma and_then_NoneE:
  assumes "and_then r k = (None, s')"
  obtains t where "r = (None, t)" "k t = (None, s')"
  using assms unfolding and_then_None by blast

lemma ensure_loop_copied:
  "copied_person_image (snd (for_each (\<lambda>person. ensure_dir (joinpath out_dir person)) xs s))
     = copied_person_image s"
  by (rule for_each_always[where I = "\<lambda>t. copied_person_image t = copied_person_image s"])
     simp_all

lemma routed_grown:
  "routed out_dir c2n E labels item s \<Longrightarrow> grown s t \<Longrightarrow> routed out_dir c2n E labels item t"
  unfolding routed_def using stable_grown by blast

lemma after_dirs_routes:
  assumes io: "set_order io" and po: "set_order po"
    and run: "after_dirs io po records labels out_dir group_thr s = (None, s')"
    and empty: "copied_person_image s = {}"
  shows "\<forall>item \<in> set (snd (build_indices records labels)).
           routed out_dir
             (cluster_to_name_of
                (eligible_clusters_of records group_thr (fst (build_indices records labels))))
             (eligible_clusters_of records group_thr (fst (build_indices records labels)))
             labels item s'"
proof -
  let ?E = "eligible_clusters_of records group_thr (fst (build_indices records labels))"
  let ?c2n = "cluster_to_name_of ?E"
  let ?G = "joinpath out_dir ''__group_only__''" and ?U = "joinpath out_dir ''__unknown__''"
  have run': "and_then (for_each (\<lambda>person. ensure_dir (joinpath out_dir person))
                          (map snd ?c2n) s) (\<lambda>s.
         and_then (for_each (route_image io records labels out_dir ?E ?c2n)
                     (snd (build_indices records labels)) s) (\<lambda>s.
         and_then (for_each (flush_copy ?G) (po (staged_group_only s)) s) (\<lambda>s.
         and_then (for_each (flush_copy ?U) (po (staged_unknown s)) s) (\<lambda>s.
         write_file (joinpath out_dir ''clustering_report.csv'') (Report (log s)) s))))
       = (None, s')"
    using run unfolding after_dirs_def Let_def .
  from run' obtain s4 where
    d: "for_each (\<lambda>person. ensure_dir (joinpath out_dir person)) (map snd ?c2n) s = (None, s4)" and
    r1: "and_then (for_each (route_image io records labels out_dir ?E ?c2n)
                     (snd (build_indices records labels)) s4) (\<lambda>s.
         and_then (for_each (flush_copy ?G) (po (staged_group_only s)) s) (\<lambda>s.
         and_then (for_each (flush_copy ?U) (po (staged_unknown s)) s) (\<lambda>s.
         write_file (joinpath out_dir ''clustering_report.csv'') (Report (log s)) s)))
       = (None, s')"
    by (rule and_then_NoneE)
  from r1 obtain s5 where
    r: "for_each (route_image io records labels out_dir ?E ?c2n)
          (snd (build_indices records labels)) s4 = (None, s5)" and
    r2: "and_then (for_each (flush_copy ?G) (po (staged_group_only s5)) s5) (\<lambda>s.
         and_then (for_each (flush_copy ?U) (po (staged_unknown s)) s) (\<lambda>s.
         write_file (joinpath out_dir ''clustering_report.csv'') (Report (log s)) s))
       = (None, s')"
    by (rule and_then_NoneE)
  from r2 obtain s6 where
    g: "for_each (flush_copy ?G) (po (staged_group_only s5)) s5 = (None, s6)" and
    r3: "and_then (for_each (flush_copy ?U) (po (staged_unknown s6)) s6) (\<lambda>s.
         write_file (joinpath out_dir ''clustering_report.csv'') (Report (log s)) s)
       = (None, s')"
    by (rule and_then_NoneE)
  from r3 obtain s7 where
    u: "for_each (flush_copy ?U) (po (staged_unknown s6)) s6 = (None, s7)" and
    w: "write_file (joinpath out_dir ''clustering_report.csv'') (Report (log s7)) s7 = (None, s')"
    by (rule and_then_NoneE)
  have "copied_person_image s4 = {}"
    using ensure_loop_copied[of out_dir "map snd ?c2n" s] d empty by simp
  then have ok: "copied_ok out_dir s4" by (simp add: copied_ok_def)
  note ps = images_loop_settles[OF r ok io]
  have a56: "advanced s5 s6"
    using flush_loop_advanced[of s5 ?G "po (staged_group_only s5)"] g by simp
  have a67: "advanced s6 s7"
    using flush_loop_advanced[of s6 ?U "po (staged_unknown s6)"] u by simp
  have g7: "grown s7 s'"
    using write_file_grown[of s7 "joinpath out_dir ''clustering_report.csv''" "Report (log s7)"] w
    by simp
  have sg: "\<forall>src \<in> set (staged_group_only s5). stable s6 src (joinpath ?G (name_of src))"
    using flush_loop_settles[OF g] po by (simp add: set_order_def)
  have su: "\<forall>src \<in> set (staged_unknown s6). stable s7 src (joinpath ?U (name_of src))"
    using flush_loop_settles[OF u] po by (simp add: set_order_def)
  have g67: "grown s6 s7" using a67 by (simp add: advanced_def)
  have "advanced s5 s7" by (rule advanced_trans[OF a56 a67])
  then have g57: "grown s5 s7" by (simp add: advanced_def)
  show ?thesis
  proof
    fix item assume "item \<in> set (snd (build_indices records labels))"
    then have p: "placed_or_staged out_dir ?c2n ?E labels item s5" using ps by blast
    have "routed out_dir ?c2n ?E labels item s7"
      unfolding routed_def
    proof (intro conjI allI impI)
      fix lab assume "to_person ?E labels (snd item) lab"
      then obtain person where "map_of ?c2n lab = Some person"
        "stable s5 (fst item) (person_dst out_dir person (fst item))"
        using p unfolding placed_or_staged_def by blast
      then show "\<exists>person. map_of ?c2n lab = Some person
                  \<and> stable s7 (fst item) (person_dst out_dir person (fst item))"
        using stable_grown[OF _ g57] by blast
    next
      assume "to_group_only ?E labels (snd item)"
      then have "fst item \<in> set (staged_group_only s5)"
        using p unfolding placed_or_staged_def by blast
      then have "stable s6 (fst item) (joinpath ?G (name_of (fst item)))" using sg by blast
      then show "stable s7 (fst item) (joinpath ?G (name_of (fst item)))"
        using stable_grown[OF _ g67] by blast
    next
      assume "to_unknown labels (snd item)"
      then have "fst item \<in> set (staged_unknown s5)"
        using p unfolding placed_or_staged_def by blast
      then have "fst item \<in> set (staged_unknown s6)"
        using a56 unfolding advanced_def by blast
      then show "stable s7 (fst item) (joinpath ?U (name_of (fst item)))" using su by blast
    qed
    then show "routed out_dir ?c2n ?E labels item s'" using routed_grown[OF _ g7] by blast
  qed
qed

lemma route_run_routes:
  assumes io: "set_order io" and po: "set_order po"
    and run: "route_run io po records labels out_dir group_thr f = (None, s')"
  shows "\<forall>item \<in> set (snd (build_indices records labels)).
           routed out_dir
             (cluster_to_name_of
                (eligible_clusters_of records group_thr (fst (build_indices records labels))))
             (eligible_clusters_of records group_thr (fst (build_indices records labels)))
             labels item s'"
proof -
  have run': "and_then (ensure_dir out_dir (init_state f)) (\<lambda>s.
     and_then (ensure_dir (joinpath out_dir ''__unknown__'') s) (\<lambda>s.
     and_then (ensure_dir (joinpath out_dir ''__group_only__'') s)
       (after_dirs io po records labels out_dir group_thr))) = (None, s')"
    using run unfolding route_run_def .
  from run' obtain s1 where
    e1: "ensure_dir out_dir (init_state f) = (None, s1)" and
    r1: "and_then (ensure_dir (joinpath out_dir ''__unknown__'') s1) (\<lambda>s.
     and_then (ensure_dir (joinpath out_dir ''__group_only__'') s)
       (after_dirs io po records labels out_dir group_thr)) = (None, s')"
    by (rule and_then_NoneE)
  from r1 obtain s2 where
    e2: "ensure_dir (joinpath out_dir ''__unknown__'') s1 = (None, s2)" and
    r2: "and_then (ensure_dir (joinpath out_dir ''__group_only__'') s2)
       (after_dirs io po records labels out_dir group_thr) = (None, s')"
    by (rule and_then_NoneE)
  from r2 obtain s3 where
    e3: "ensure_dir (joinpath out_dir ''__group_only__'') s2 = (None, s3)" and
    rest: "after_dirs io po records labels out_dir group_thr s3 = (None, s')"
    by (rule and_then_NoneE)
  have "copied_person_image s1 = {}"
    using ensure_dir_locals(1)[of out_dir "init_state f"] e1 by simp
  then have "copied_person_image s2 = {}"
    using ensure_dir_locals(1)[of "joinpath out_dir ''__unknown__''" s1] e2 by simp
  then have "copied_person_image s3 = {}"
    using ensure_dir_locals(1)[of "joinpath out_dir ''__group_only__''" s2] e3 by simp
  then show ?thesis by (rule after_dirs_routes[OF io po rest])
qed

section \<open>Counting copies\<close>

lemma copies_journal_eq: "journal t = journal s \<Longrightarrow> copies P t = copies P s"
  by (simp add: copies_def)

lemma copy_if_absent_copies:
  "copies P (snd (copy_if_absent src dst s)) \<le> copies P s + (if P (src, dst) then 1 else 0)"
  using copy_if_absent_journal[of src dst s] by (auto simp: copies_def)

lemma copy_to_person_copies:
  "copies P (snd (copy_to_person records labels out_dir c2n src idxs lab s))
     \<le> copies P s
        + (if \<exists>person. map_of c2n lab = Some person \<and> P (src, person_dst out_dir person src)
           then 1 else 0)"
proof (cases rule: copy_to_person_cases[of c2n lab records labels out_dir src idxs s])
  case missing
  then show ?thesis by simp
next
  case (seen person)
  then show ?thesis by (simp add: copies_def)
next
  case (failed person e t)
  then show ?thesis
    using copy_if_absent_copies[of P src "person_dst out_dir person src" s] by auto
next
  case (copied person t)
  have "copies P (snd (copy_to_person records labels out_dir c2n src idxs lab s)) = copies P t"
    using copied(4) by (simp add: copies_def)
  then show ?thesis
    using copied(1,3) copy_if_absent_copies[of P src "person_dst out_dir person src" s] by auto
qed

lemma sum_indicator: "sum_list (map (\<lambda>x. if R x then 1 else 0) xs) = length (filter R xs)"
  by (induction xs) auto

lemma person_loop_copies:
  "copies P (snd (for_each (copy_to_person records labels out_dir c2n src idxs) labs s))
     \<le> copies P s
        + length (filter (\<lambda>lab. \<exists>person. map_of c2n lab = Some person
                                  \<and> P (src, person_dst out_dir person src)) labs)"
  unfolding sum_indicator[symmetric]
  by (rule for_each_count) (rule copy_to_person_copies)

lemma route_image_journal:
  "journal (snd (route_image io records labels out_dir E c2n item s))
     = journal (snd (for_each (copy_to_person records labels out_dir c2n (fst item) (snd item))
             (eligible_on_image io E (labs_on_image io labels (snd item))) s))"
proof -
  let ?L = "for_each (copy_to_person records labels out_dir c2n (fst item) (snd item))
             (eligible_on_image io E (labs_on_image io labels (snd item))) s"
  obtain r t where l: "?L = (r, t)" by (cases ?L)
  show ?thesis
  proof (cases r)
    case None
    then show ?thesis using route_image_tail[of records labels out_dir c2n item io E s t] l
      by auto
  next
    case (Some e)
    then show ?thesis using route_image_raise[of records labels out_dir c2n item io E s e t] l
      by simp
  qed
qed

lemma route_image_copies:
  "copies P (snd (route_image io records labels out_dir E c2n item s))
     \<le> copies P s
        + length (filter (\<lambda>lab. \<exists>person. map_of c2n lab = Some person
                                  \<and> P (fst item, person_dst out_dir person (fst item)))
                   (eligible_on_image io E (labs_on_image io labels (snd item))))"
  unfolding copies_journal_eq[OF route_image_journal] by (rule person_loop_copies)

lemma flush_loop_copies:
  "copies P (snd (for_each (flush_copy dir) xs s))
     \<le> copies P s + length (filter (\<lambda>src. P (src, joinpath dir (name_of src))) xs)"
  unfolding sum_indicator[symmetric]
  by (rule for_each_count) (simp add: flush_copy_def copy_if_absent_copies)

lemma ensure_loop_copies:
  "copies P (snd (for_each (\<lambda>person. ensure_dir (joinpath out_dir person)) xs s)) = copies P s"
  by (rule for_each_always[where I = "\<lambda>t. copies P t = copies P s"]) (simp_all add: copies_def)

lemma and_then_copies:
  assumes "copies P (snd r) \<le> c + a" and "\<And>t. copies P (snd (k t)) \<le> copies P t + b"
  shows "copies P (snd (and_then r k)) \<le> c + a + b"
proof (cases r)
  case (Pair e t)
  show ?thesis
  proof (cases e)
    case None
    then show ?thesis using assms(1) assms(2)[of t] Pair by simp
  next
    case (Some x)
    then show ?thesis using assms(1) Pair by simp
  qed
qed

lemma filter_at_most_one:
  assumes "distinct xs" and "\<And>x y. x \<in> set xs \<Longrightarrow> y \<in> set xs \<Longrightarrow> R x \<Longrightarrow> R y \<Longrightarrow> x = y"
  shows "length (filter R xs) \<le> 1"
proof -
  have d: "distinct (filter R xs)" using assms(1) by simp
  have "card (set (filter R xs)) \<le> 1"
  proof (rule card_le_Suc0_iff_eq[THEN iffD2, unfolded One_nat_def[symmetric]])
    show "finite (set (filter R xs))" by simp
    show "\<forall>a\<in>set (filter R xs). \<forall>b\<in>set (filter R xs). a = b" using assms(2) by auto
  qed
  then show ?thesis using distinct_card[OF d] by simp
qed

lemma butlast_two: "butlast (xs @ [a, b]) = xs @ [a]"
  by (simp add: butlast_append)

lemma parent_joinpath: "seg \<noteq> [] \<Longrightarrow> parent (joinpath p seg) = p"
  by (simp add: parent_def joinpath_def)

lemma person_dst_parent:
  "person \<noteq> [] \<Longrightarrow> parent (person_dst out_dir person src) = out_dir @ [person]"
  by (simp add: person_dst_def parent_def joinpath_def butlast_two)

lemma named_person:
  assumes "map_of (cluster_to_name_of E) lab = Some person"
  shows "\<exists>i. person = person_name i"
proof -
  have "person \<in> set (map snd (cluster_to_name_of E))"
    using map_of_SomeD[OF assms] by force
  then show ?thesis unfolding cluster_to_name_values by auto
qed

lemma distinct_person_names: "distinct (map person_name [0..<n])"
  unfolding distinct_map using person_name_inj by (auto simp: inj_on_def)

lemma naming_injective:
  assumes "map_of (cluster_to_name_of E) lab = Some person"
    and "map_of (cluster_to_name_of E) lab' = Some person"
  shows "lab = lab'"
proof -
  have d: "distinct (map snd (cluster_to_name_of E))"
    unfolding cluster_to_name_values by (rule distinct_person_names)
  have "(lab, person) \<in> set (cluster_to_name_of E)" "(lab', person) \<in> set (cluster_to_name_of E)"
    using assms map_of_SomeD by fast+
  then show ?thesis using d unfolding distinct_map inj_on_def by fastforce
qed

lemma sum_list_le_filter:
  assumes "\<And>x. x \<in> set xs \<Longrightarrow> W x \<le> (if R x then 1 else (0::nat))"
  shows "sum_list (map W xs) \<le> length (filter R xs)"
  using assms
proof (induction xs)
  case Nil
  then show ?case by simp
next
  case (Cons a xs)
  have "W a \<le> (if R a then 1 else 0)" using Cons.prems[of a] by simp
  moreover have "sum_list (map W xs) \<le> length (filter R xs)"
    by (rule Cons.IH) (simp add: Cons.prems)
  ultimately show ?case by auto
qed

lemma keyed_at_most_one:
  assumes "distinct (map fst items)"
  shows "length (filter (\<lambda>item. fst item = k) items) \<le> 1"
proof (rule filter_at_most_one)
  show "distinct items" using assms by (simp add: distinct_map)
next
  fix x y assume "x \<in> set items" "y \<in> set items" "fst x = k" "fst y = k"
  then show "x = y" using assms unfolding distinct_map inj_on_def by auto
qed

lemma images_loop_copies:
  assumes io: "set_order io" and keys: "distinct (map fst items)" and nm: "nm \<noteq> []"
  shows "copies (in_bucket src (out_dir @ [nm]))
           (snd (for_each (route_image io records labels out_dir E (cluster_to_name_of E)) items s))
         \<le> copies (in_bucket src (out_dir @ [nm])) s + (if hd nm = CHR ''p'' then 1 else 0)"
proof -
  let ?P = "in_bucket src (out_dir @ [nm])"
  let ?c2n = "cluster_to_name_of E"
  let ?W = "\<lambda>item. length (filter (\<lambda>lab. \<exists>person. map_of ?c2n lab = Some person
                                  \<and> ?P (fst item, person_dst out_dir person (fst item)))
                   (eligible_on_image io E (labs_on_image io labels (snd item))))"
  have hit: "person = nm \<and> a = src"
    if h1: "map_of ?c2n lab = Some person" and h2: "?P (a, person_dst out_dir person a)"
    for lab person a
  proof -
    obtain i where "person = person_name i" using named_person[OF h1] by blast
    then have "person \<noteq> []" by (simp add: person_name_nonempty)
    then show ?thesis using h2 by (simp add: in_bucket_def person_dst_parent)
  qed
  have w: "?W item \<le> (if fst item = src \<and> hd nm = CHR ''p'' then 1 else 0)" for item
  proof (cases "fst item = src \<and> hd nm = CHR ''p''")
    case True
    have "?W item \<le> 1"
    proof (rule filter_at_most_one)
      show "distinct (eligible_on_image io E (labs_on_image io labels (snd item)))"
        by (rule distinct_eligible_on_image[OF io])
    next
      fix x y
      assume "\<exists>person. map_of ?c2n x = Some person
                \<and> ?P (fst item, person_dst out_dir person (fst item))"
        and "\<exists>person. map_of ?c2n y = Some person
                \<and> ?P (fst item, person_dst out_dir person (fst item))"
      then have "map_of ?c2n x = Some nm" "map_of ?c2n y = Some nm" using hit by blast+
      then show "x = y" by (rule naming_injective)
    qed
    then show ?thesis using True by simp
  next
    case False
    have "\<not> (\<exists>person. map_of ?c2n lab = Some person
                \<and> ?P (fst item, person_dst out_dir person (fst item)))" for lab
    proof
      assume "\<exists>person. map_of ?c2n lab = Some person
                \<and> ?P (fst item, person_dst out_dir person (fst item))"
      then obtain person where p: "map_of ?c2n lab = Some person"
        "?P (fst item, person_dst out_dir person (fst item))" by blast
      have "person = nm" "fst item = src" using hit[OF p] by simp_all
      moreover obtain i where "person = person_name i" using named_person[OF p(1)] by blast
      ultimately show False using False person_name_hd[of i] by simp
    qed
    then have "?W item = 0" by simp
    then show ?thesis by simp
  qed
  have "copies ?P (snd (for_each (route_image io records labels out_dir E ?c2n) items s))
          \<le> copies ?P s + sum_list (map ?W items)"
    by (rule for_each_count) (rule route_image_copies)
  also have "sum_list (map ?W items)
          \<le> length (filter (\<lambda>item. fst item = src \<and> hd nm = CHR ''p'') items)"
    by (rule sum_list_le_filter) (rule w)
  also have "\<dots> \<le> (if hd nm = CHR ''p'' then 1 else 0)"
    using keyed_at_most_one[OF keys, of src] by (cases "hd nm = CHR ''p''") simp_all
  finally show ?thesis by simp
qed

lemma flush_loop_bucket:
  assumes xs: "distinct xs" and nm: "nm \<noteq> []" and dn: "dn \<noteq> []"
  shows "copies (in_bucket src (out_dir @ [nm])) (snd (for_each (flush_copy (out_dir @ [dn])) xs s))
         \<le> copies (in_bucket src (out_dir @ [nm])) s + (if nm = dn then 1 else 0)"
proof -
  let ?P = "in_bucket src (out_dir @ [nm])"
  have p: "?P (a, joinpath (out_dir @ [dn]) (name_of a)) \<longrightarrow> a = src \<and> nm = dn" for a
    by (cases "name_of a = []") (auto simp: in_bucket_def parent_def joinpath_def butlast_two)
  have "length (filter (\<lambda>a. ?P (a, joinpath (out_dir @ [dn]) (name_of a))) xs)
          \<le> (if nm = dn then 1 else 0)"
  proof (cases "nm = dn")
    case True
    have "length (filter (\<lambda>a. ?P (a, joinpath (out_dir @ [dn]) (name_of a))) xs) \<le> 1"
      by (rule filter_at_most_one[OF xs]) (use p in blast)
    then show ?thesis using True by simp
  next
    case False
    then have "filter (\<lambda>a. ?P (a, joinpath (out_dir @ [dn]) (name_of a))) xs = []"
      using p by (simp add: filter_empty_conv)
    then show ?thesis by simp
  qed
  then show ?thesis
    using flush_loop_copies[of ?P "out_dir @ [dn]" xs s] by linarith
qed

lemma after_dirs_bucket:
  assumes io: "set_order io" and po: "set_order po" and nm: "nm \<noteq> []"
  shows "copies (in_bucket src (out_dir @ [nm]))
           (snd (after_dirs io po records labels out_dir group_thr s))
         \<le> copies (in_bucket src (out_dir @ [nm])) s + 1"
proof -
  let ?P = "in_bucket src (out_dir @ [nm])"
  let ?E = "eligible_clusters_of records group_thr (fst (build_indices records labels))"
  let ?c2n = "cluster_to_name_of ?E"
  let ?G = "out_dir @ [''__group_only__'']" and ?U = "out_dir @ [''__unknown__'']"
  let ?rp = "joinpath out_dir ''clustering_report.csv''"
  define aI :: nat where "aI = (if hd nm = CHR ''p'' then 1 else 0)"
  define aG :: nat where "aG = (if nm = ''__group_only__'' then 1 else 0)"
  define aU :: nat where "aU = (if nm = ''__unknown__'' then 1 else 0)"
  have total: "aI + aG + aU \<le> 1" by (auto simp: aI_def aG_def aU_def)
  have d: "distinct (po xs)" for xs using po by (simp add: set_order_def)
  have w: "copies ?P (snd (write_file ?rp (Report (log t)) t)) \<le> copies ?P t + 0" for t
    by (simp add: copies_def)
  have fu: "copies ?P (snd (for_each (flush_copy ?U) (po (staged_unknown t)) t))
              \<le> copies ?P t + aU" for t
    unfolding aU_def by (rule flush_loop_bucket[OF d nm]) simp
  have k3: "copies ?P (snd (and_then (for_each (flush_copy ?U) (po (staged_unknown t)) t)
              (\<lambda>s. write_file ?rp (Report (log s)) s))) \<le> copies ?P t + aU + 0" for t
    by (rule and_then_copies[OF fu w])
  have fg: "copies ?P (snd (for_each (flush_copy ?G) (po (staged_group_only t)) t))
              \<le> copies ?P t + aG" for t
    unfolding aG_def by (rule flush_loop_bucket[OF d nm]) simp
  have k2: "copies ?P (snd (and_then (for_each (flush_copy ?G) (po (staged_group_only t)) t)
              (\<lambda>s. and_then (for_each (flush_copy ?U) (po (staged_unknown s)) s)
              (\<lambda>s. write_file ?rp (Report (log s)) s)))) \<le> copies ?P t + aG + aU" for t
    by (rule and_then_copies[OF fg]) (use k3 in simp)
  have fi: "copies ?P (snd (for_each (route_image io records labels out_dir ?E ?c2n)
              (snd (build_indices records labels)) t)) \<le> copies ?P t + aI" for t
    unfolding aI_def by (rule images_loop_copies[OF io image_keys_distinct nm])
  have k1: "copies ?P (snd (and_then (for_each (route_image io records labels out_dir ?E ?c2n)
              (snd (build_indices records labels)) t)
              (\<lambda>s. and_then (for_each (flush_copy ?G) (po (staged_group_only s)) s)
              (\<lambda>s. and_then (for_each (flush_copy ?U) (po (staged_unknown s)) s)
              (\<lambda>s. write_file ?rp (Report (log s)) s))))) \<le> copies ?P t + aI + (aG + aU)" for t
    by (rule and_then_copies[OF fi]) (use k2 in \<open>simp add: add.assoc\<close>)
  have fe: "copies ?P (snd (for_each (\<lambda>person. ensure_dir (joinpath out_dir person))
              (map snd ?c2n) s)) \<le> copies ?P s + 0"
    by (simp add: ensure_loop_copies)
  have "copies ?P (snd (after_dirs io po records labels out_dir group_thr s))
          \<le> copies ?P s + 0 + (aI + (aG + aU))"
    unfolding after_dirs_def Let_def
    apply (rule and_then_copies[OF fe])
    using k1 by (simp add: joinpath_def add.assoc)
  then show ?thesis using total by linarith
qed

lemma route_run_bucket:
  assumes io: "set_order io" and po: "set_order po" and nm: "nm \<noteq> []"
  shows "copies (in_bucket src (out_dir @ [nm]))
           (snd (route_run io po records labels out_dir group_thr f))
         \<le> copies (in_bucket src (out_dir @ [nm])) f + 1"
proof -
  let ?P = "in_bucket src (out_dir @ [nm])"
  have e: "copies ?P (snd (ensure_dir p t)) \<le> copies ?P t + 0" for p and t :: state
    by (simp add: copies_def)
  have a: "copies ?P (snd (after_dirs io po records labels out_dir group_thr t))
             \<le> copies ?P t + 1" for t
    by (rule after_dirs_bucket[OF io po nm])
  have k2: "copies ?P (snd (and_then (ensure_dir (joinpath out_dir ''__group_only__'') t)
              (after_dirs io po records labels out_dir group_thr))) \<le> copies ?P t + 0 + 1" for t
    by (rule and_then_copies[OF e a])
  have k1: "copies ?P (snd (and_then (ensure_dir (joinpath out_dir ''__unknown__'') t)
              (\<lambda>s. and_then (ensure_dir (joinpath out_dir ''__group_only__'') s)
              (after_dirs io po records labels out_dir group_thr)))) \<le> copies ?P t + 0 + 1" for t
    by (rule and_then_copies[OF e]) (use k2 in simp)
  have i: "copies ?P (snd (ensure_dir out_dir (init_state f))) \<le> copies ?P f + 0"
    by (simp add: copies_def)
  have "copies ?P (snd (route_run io po records labels out_dir group_thr f))
          \<le> copies ?P f + 0 + 1"
    unfolding route_run_def by (rule and_then_copies[OF i]) (use k1 in simp)
  then show ?thesis by simp
qed

section \<open>A run that returns\<close>

lemma after_dirs_NoneE:
  assumes run: "after_dirs io po records labels out_dir group_thr s = (None, s')"
  obtains s4 s5 s6 s7 where
    "for_each (\<lambda>person. ensure_dir (joinpath out_dir person))
       (map snd (cluster_to_name_of
          (eligible_clusters_of records group_thr (fst (build_indices records labels))))) s
       = (None, s4)"
    "for_each (route_image io records labels out_dir
          (eligible_clusters_of records group_thr (fst (build_indices records labels)))
          (cluster_to_name_of
             (eligible_clusters_of records group_thr (fst (build_indices records labels)))))
          (snd (build_indices records labels)) s4 = (None, s5)"
    "for_each (flush_copy (joinpath out_dir ''__group_only__'')) (po (staged_group_only s5)) s5
       = (None, s6)"
    "for_each (flush_copy (joinpath out_dir ''__unknown__'')) (po (staged_unknown s6)) s6
       = (None, s7)"
    "write_file (joinpath out_dir ''clustering_report.csv'') (Report (log s7)) s7 = (None, s')"
proof -
  let ?E = "eligible_clusters_of records group_thr (fst (build_indices records labels))"
  let ?c2n = "cluster_to_name_of ?E"
  let ?G = "joinpath out_dir ''__group_only__''" and ?U = "joinpath out_dir ''__unknown__''"
  have run': "and_then (for_each (\<lambda>person. ensure_dir (joinpath out_dir person))
                          (map snd ?c2n) s) (\<lambda>s.
         and_then (for_each (route_image io records labels out_dir ?E ?c2n)
                     (snd (build_indices records labels)) s) (\<lambda>s.
         and_then (for_each (flush_copy ?G) (po (staged_group_only s)) s) (\<lambda>s.
         and_then (for_each (flush_copy ?U) (po (staged_unknown s)) s) (\<lambda>s.
         write_file (joinpath out_dir ''clustering_report.csv'') (Report (log s)) s))))
       = (None, s')"
    using run unfolding after_dirs_def Let_def .
  from run' obtain s4 where
    d: "for_each (\<lambda>person. ensure_dir (joinpath out_dir person)) (map snd ?c2n) s = (None, s4)" and
    r1: "and_then (for_each (route_image io records labels out_dir ?E ?c2n)
                     (snd (build_indices records labels)) s4) (\<lambda>s.
         and_then (for_each (flush_copy ?G) (po (staged_group_only s)) s) (\<lambda>s.
         and_then (for_each (flush_copy ?U) (po (staged_unknown s)) s) (\<lambda>s.
         write_file (joinpath out_dir ''clustering_report.csv'') (Report (log s)) s)))
       = (None, s')"
    by (rule and_then_NoneE)
  from r1 obtain s5 where
    r: "for_each (route_image io records labels out_dir ?E ?c2n)
          (snd (build_indices records labels)) s4 = (None, s5)" and
    r2: "and_then (for_each (flush_copy ?G) (po (staged_group_only s5)) s5) (\<lambda>s.
         and_then (for_each (flush_copy ?U) (po (staged_unknown s)) s) (\<lambda>s.
         write_file (joinpath out_dir ''clustering_report.csv'') (Report (log s)) s))
       = (None, s')"
    by (rule and_then_NoneE)
  from r2 obtain s6 where
    g: "for_each (flush_copy ?G) (po (staged_group_only s5)) s5 = (None, s6)" and
    r3: "and_then (for_each (flush_copy ?U) (po (staged_unknown s6)) s6) (\<lambda>s.
         write_file (joinpath out_dir ''clustering_report.csv'') (Report (log s)) s)
       = (None, s')"
    by (rule and_then_NoneE)
  from r3 obtain s7 where
    u: "for_each (flush_copy ?U) (po (staged_unknown s6)) s6 = (None, s7)" and
    w: "write_file (joinpath out_dir ''clustering_report.csv'') (Report (log s7)) s7 = (None, s')"
    by (rule and_then_NoneE)
  show thesis by (rule that[OF d r g u w])
qed

lemma route_run_NoneE:
  assumes run: "route_run io po records labels out_dir group_thr f = (None, s')"
  obtains s1 s2 s3 where
    "ensure_dir out_dir (init_state f) = (None, s1)"
    "ensure_dir (joinpath out_dir ''__unknown__'') s1 = (None, s2)"
    "ensure_dir (joinpath out_dir ''__group_only__'') s2 = (None, s3)"
    "after_dirs io po records labels out_dir group_thr s3 = (None, s')"
proof -
  have run': "and_then (ensure_dir out_dir (init_state f)) (\<lambda>s.
     and_then (ensure_dir (joinpath out_dir ''__unknown__'') s) (\<lambda>s.
     and_then (ensure_dir (joinpath out_dir ''__group_only__'') s)
       (after_dirs io po records labels out_dir group_thr))) = (None, s')"
    using run unfolding route_run_def .
  from run' obtain s1 where
    e1: "ensure_dir out_dir (init_state f) = (None, s1)" and
    r1: "and_then (ensure_dir (joinpath out_dir ''__unknown__'') s1) (\<lambda>s.
     and_then (ensure_dir (joinpath out_dir ''__group_only__'') s)
       (after_dirs io po records labels out_dir group_thr)) = (None, s')"
    by (rule and_then_NoneE)
  from r1 obtain s2 where
    e2: "ensure_dir (joinpath out_dir ''__unknown__'') s1 = (None, s2)" and
    r2: "and_then (ensure_dir (joinpath out_dir ''__group_only__'') s2)
       (after_dirs io po records labels out_dir group_thr) = (None, s')"
    by (rule and_then_NoneE)
  from r2 obtain s3 where
    e3: "ensure_dir (joinpath out_dir ''__group_only__'') s2 = (None, s3)" and
    rest: "after_dirs io po records labels out_dir group_thr s3 = (None, s')"
    by (rule and_then_NoneE)
  show thesis by (rule that[OF e1 e2 e3 rest])
qed

lemma images_loop_dirs:
  "dirs (snd (for_each (route_image io records labels out_dir E c2n) items s)) = dirs s"
  by (rule for_each_dirs) (rule route_image_dirs)

lemma flush_loop_dirs: "dirs (snd (for_each (flush_copy dir) xs s)) = dirs s"
  by (rule for_each_dirs) simp

lemma ensure_loop_made:
  assumes "for_each (\<lambda>person. ensure_dir (joinpath out_dir person)) xs s = (None, s')"
  shows "\<forall>person \<in> set xs. joinpath out_dir person \<in> dirs s'"
proof -
  have "True \<and> (\<forall>person \<in> set xs. joinpath out_dir person \<in> dirs s')"
  proof (rule for_each_success[OF assms, where I = "\<lambda>u. True"])
    fix x u u' assume "ensure_dir (joinpath out_dir x) u = (None, u')"
    then show "True \<and> joinpath out_dir x \<in> dirs u'" using ensure_dir_result by blast
  next
    fix x y u u'
    assume q: "joinpath out_dir y \<in> dirs u" and c: "ensure_dir (joinpath out_dir x) u = (None, u')"
    show "joinpath out_dir y \<in> dirs u'"
      using ensure_dir_dirs[of u "joinpath out_dir x"] c q by auto
  qed simp
  then show ?thesis by simp
qed

lemma write_file_success:
  "write_file p c s = (None, s') \<Longrightarrow>
     p \<notin> dirs s \<and> p \<notin> denied s \<and> parent p \<in> dirs s \<and> s' = s\<lparr>files := (files s)(p \<mapsto> c)\<rparr>"
  by (auto simp: write_file_def split: if_splits)

lemma after_dirs_left:
  assumes run: "after_dirs io po records labels out_dir group_thr s = (None, s')"
  shows "(\<forall>person \<in> set (map snd (cluster_to_name_of
            (eligible_clusters_of records group_thr (fst (build_indices records labels))))).
           joinpath out_dir person \<in> dirs s')
     \<and> dirs s \<subseteq> dirs s'
     \<and> joinpath out_dir ''clustering_report.csv'' \<notin> dirs s'
     \<and> joinpath out_dir ''clustering_report.csv'' \<notin> denied s'
     \<and> parent (joinpath out_dir ''clustering_report.csv'') \<in> dirs s'
     \<and> is_file s' (joinpath out_dir ''clustering_report.csv'')"
proof -
  let ?rp = "joinpath out_dir ''clustering_report.csv''"
  from run obtain s4 s5 s6 s7 where
    d: "for_each (\<lambda>person. ensure_dir (joinpath out_dir person))
       (map snd (cluster_to_name_of
          (eligible_clusters_of records group_thr (fst (build_indices records labels))))) s
       = (None, s4)" and
    r: "for_each (route_image io records labels out_dir
          (eligible_clusters_of records group_thr (fst (build_indices records labels)))
          (cluster_to_name_of
             (eligible_clusters_of records group_thr (fst (build_indices records labels)))))
          (snd (build_indices records labels)) s4 = (None, s5)" and
    g: "for_each (flush_copy (joinpath out_dir ''__group_only__'')) (po (staged_group_only s5)) s5
       = (None, s6)" and
    u: "for_each (flush_copy (joinpath out_dir ''__unknown__'')) (po (staged_unknown s6)) s6
       = (None, s7)" and
    w: "write_file ?rp (Report (log s7)) s7 = (None, s')"
    by (rule after_dirs_NoneE)
  have d5: "dirs s5 = dirs s4" using images_loop_dirs[of io records labels out_dir _ _ _ s4] r
    by (metis snd_conv)
  have d6: "dirs s6 = dirs s5" using flush_loop_dirs[of _ _ s5] g by (metis snd_conv)
  have d7: "dirs s7 = dirs s6" using flush_loop_dirs[of _ _ s6] u by (metis snd_conv)
  note ws = write_file_success[OF w]
  have d': "dirs s' = dirs s4" using ws d5 d6 d7 by simp
  have n': "denied s' = denied s7" using ws by simp
  have sub: "dirs s \<subseteq> dirs s4"
    using after_dirs_dirs[of s io po records labels out_dir group_thr] run d' by simp
  show ?thesis
    using ensure_loop_made[OF d] sub ws unfolding d' n'
    by (simp add: d5 d6 d7 is_file_def)
qed

section \<open>Running again\<close>

lemma quiet_refl [simp]: "quiet s s"
  by (simp add: quiet_def)

lemma quiet_journal:
  "quiet s t \<longleftrightarrow> same_tree s t \<and> (\<exists>js. journal t = journal s @ js \<and> (\<forall>e \<in> set js. snd e \<in> dirs s))"
proof
  assume q: "quiet s t"
  then have "journal t = journal s @ drop (length (journal s)) (journal t)"
    unfolding quiet_def by (metis append_take_drop_id)
  with q show "same_tree s t \<and> (\<exists>js. journal t = journal s @ js \<and> (\<forall>e \<in> set js. snd e \<in> dirs s))"
    unfolding quiet_def list_all_iff by blast
next
  assume "same_tree s t \<and> (\<exists>js. journal t = journal s @ js \<and> (\<forall>e \<in> set js. snd e \<in> dirs s))"
  then show "quiet s t" unfolding quiet_def list_all_iff by auto
qed

lemma quiet_trans:
  assumes "quiet s t" and "quiet t u"
  shows "quiet s u"
proof -
  from assms(1) obtain js where st: "same_tree s t" and j1: "journal t = journal s @ js"
    and d1: "\<forall>e \<in> set js. snd e \<in> dirs s" unfolding quiet_journal by blast
  from assms(2) obtain ks where tu: "same_tree t u" and j2: "journal u = journal t @ ks"
    and d2: "\<forall>e \<in> set ks. snd e \<in> dirs t" unfolding quiet_journal by blast
  have dt: "dirs t = dirs s" using st by (simp add: same_tree_def)
  have "journal u = journal s @ (js @ ks)" using j1 j2 by simp
  moreover have "\<forall>e \<in> set (js @ ks). snd e \<in> dirs s" using d1 d2 dt by auto
  ultimately show ?thesis unfolding quiet_journal using same_tree_trans[OF st tu] by blast
qed

lemma quiet_fs_eq:
  "dirs t = dirs s \<Longrightarrow> files t = files s \<Longrightarrow> denied t = denied s \<Longrightarrow> journal t = journal s
     \<Longrightarrow> quiet s t"
  by (simp add: quiet_def same_tree_def)

lemma quiet_stable: "quiet s t \<Longrightarrow> stable s src dst \<Longrightarrow> stable t src dst"
  using stable_grown same_tree_grown unfolding quiet_def by blast

lemma copy_if_absent_quiet:
  assumes "stable s src dst"
  shows "\<exists>s'. copy_if_absent src dst s = (None, s') \<and> quiet s s'"
proof (cases "is_file s dst")
  case True
  then show ?thesis by (simp add: copy_if_absent_def)
next
  case False
  with assms have st: "is_file s src" "src \<noteq> copy_target s src dst" "src \<notin> denied s"
    "copy_target s src dst \<notin> denied s" "copy_target s src dst \<notin> dirs s"
    "parent (copy_target s src dst) \<in> dirs s" "is_file s (copy_target s src dst)"
    unfolding stable_def by auto
  from st(7) False have d: "dst \<in> dirs s" by (auto simp: copy_target_def split: if_splits)
  from st(1) obtain c where c: "files s src = Some c" by (auto simp: is_file_def)
  let ?s' = "s\<lparr>files := (files s)(copy_target s src dst \<mapsto> c), journal := journal s @ [(src, dst)]\<rparr>"
  have r: "copy_if_absent src dst s = (None, ?s')"
    using False st c by (simp add: copy_if_absent_def copy2_def Let_def)
  have "quiet s ?s'"
    using st(7) d by (auto simp: quiet_def same_tree_def is_file_def)
  with r show ?thesis by blast
qed

lemma copy_to_person_quiet:
  assumes m: "map_of c2n lab = Some person"
    and st: "stable s src (person_dst out_dir person src)"
  shows "\<exists>s'. copy_to_person records labels out_dir c2n src idxs lab s = (None, s')
            \<and> quiet s s' \<and> staged_group_only s' = staged_group_only s
            \<and> staged_unknown s' = staged_unknown s"
proof (cases rule: copy_to_person_cases[of c2n lab records labels out_dir src idxs s])
  case missing
  with m show ?thesis by simp
next
  case (seen p)
  have "quiet s (s\<lparr>log := log s @ log_rows records labels src idxs (\<lambda>l. l = lab)
                                    p ''eligible_person_image''\<rparr>)"
    by (rule quiet_fs_eq) simp_all
  with seen(3) show ?thesis by simp
next
  case (failed p e t)
  from failed(1) m have "p = person" by simp
  with copy_if_absent_quiet[OF st] failed(3) show ?thesis by auto
next
  case (copied p t)
  from copied(1) m have p: "p = person" by simp
  from copy_if_absent_quiet[OF st] copied(3) p have q: "quiet s t" by auto
  have l: "staged_group_only t = staged_group_only s" "staged_unknown t = staged_unknown s"
    using copy_if_absent_locals(2,3)[of src "person_dst out_dir p src" s] copied(3) by simp_all
  have "quiet t (t\<lparr>copied_person_image := insert (p, src) (copied_person_image t),
                     log := log t @ log_rows records labels src idxs (\<lambda>l. l = lab)
                                    p ''eligible_person_image''\<rparr>)"
    by (rule quiet_fs_eq) simp_all
  from quiet_trans[OF q this] copied(4) l show ?thesis by simp
qed

lemma route_image_quiet:
  assumes io: "set_order io"
    and pl: "\<forall>lab. to_person E labels (snd item) lab \<longrightarrow>
        (\<exists>person. map_of c2n lab = Some person
                  \<and> stable s (fst item) (person_dst out_dir person (fst item)))"
  shows "\<exists>s'. route_image io records labels out_dir E c2n item s = (None, s') \<and> quiet s s'
     \<and> set (staged_group_only s')
         = set (staged_group_only s) \<union> (if to_group_only E labels (snd item) then {fst item} else {})
     \<and> set (staged_unknown s')
         = set (staged_unknown s) \<union> (if to_unknown labels (snd item) then {fst item} else {})"
proof -
  let ?I = "\<lambda>t::state. quiet s t \<and> staged_group_only t = staged_group_only s
                 \<and> staged_unknown t = staged_unknown s"
  have "\<exists>t. for_each (copy_to_person records labels out_dir c2n (fst item) (snd item))
             (eligible_on_image io E (labs_on_image io labels (snd item))) s = (None, t) \<and> ?I t"
  proof (rule for_each_total[where I = ?I])
    show "?I s" by simp
  next
    fix x t
    assume x: "x \<in> set (eligible_on_image io E (labs_on_image io labels (snd item)))" and i: "?I t"
    from x have "to_person E labels (snd item) x" unfolding set_eligible_on_image[OF io] by simp
    with pl obtain person where m: "map_of c2n x = Some person"
      and st: "stable s (fst item) (person_dst out_dir person (fst item))" by blast
    from i have q: "quiet s t" by simp
    from copy_to_person_quiet[OF m quiet_stable[OF q st], of records labels "snd item"]
    obtain t' where c: "copy_to_person records labels out_dir c2n (fst item) (snd item) x t = (None, t')"
      and q': "quiet t t'" and l: "staged_group_only t' = staged_group_only t"
        "staged_unknown t' = staged_unknown t" by blast
    from quiet_trans[OF q q'] l i c
    show "\<exists>t'. copy_to_person records labels out_dir c2n (fst item) (snd item) x t = (None, t')
               \<and> ?I t'" by simp
  qed
  then obtain t where
    loop: "for_each (copy_to_person records labels out_dir c2n (fst item) (snd item))
             (eligible_on_image io E (labs_on_image io labels (snd item))) s = (None, t)"
    and q: "quiet s t" and l: "staged_group_only t = staged_group_only s"
      "staged_unknown t = staged_unknown s" by blast
  from route_image_tail[OF loop] obtain l1 l2 where
    r: "route_image io records labels out_dir E c2n item s =
       (None, t\<lparr>staged_group_only :=
                   (if ineligible_on_image io E (labs_on_image io labels (snd item)) \<noteq> []
                    then staged_group_only t @ [fst item] else staged_group_only t),
                 staged_unknown :=
                   (if \<not> has_any_cluster (labs_on_image io labels (snd item))
                    then staged_unknown t @ [fst item] else staged_unknown t),
                 log := log t @ l1 @ l2\<rparr>)" by blast
  let ?s' = "t\<lparr>staged_group_only :=
                   (if ineligible_on_image io E (labs_on_image io labels (snd item)) \<noteq> []
                    then staged_group_only t @ [fst item] else staged_group_only t),
                 staged_unknown :=
                   (if \<not> has_any_cluster (labs_on_image io labels (snd item))
                    then staged_unknown t @ [fst item] else staged_unknown t),
                 log := log t @ l1 @ l2\<rparr>"
  have "quiet t ?s'" by (rule quiet_fs_eq) simp_all
  from quiet_trans[OF q this] have q': "quiet s ?s'" .
  have g: "set (staged_group_only ?s')
         = set (staged_group_only s) \<union> (if to_group_only E labels (snd item) then {fst item} else {})"
    using l by (simp add: ineligible_nonempty[OF io])
  have u: "set (staged_unknown ?s')
         = set (staged_unknown s) \<union> (if to_unknown labels (snd item) then {fst item} else {})"
    using l by (simp add: no_cluster_iff[OF io])
  from r q' g u show ?thesis by blast
qed

lemma flush_loop_quiet:
  assumes "\<forall>src \<in> set xs. stable s src (joinpath dir (name_of src))"
  shows "\<exists>s'. for_each (flush_copy dir) xs (s::state) = (None, s') \<and> quiet s s'
            \<and> staged_unknown s' = staged_unknown s \<and> log s' = log s"
proof (rule for_each_total[where I = "\<lambda>t::state. quiet s t \<and> staged_unknown t = staged_unknown s \<and> log t = log s"])
  show "quiet s s \<and> staged_unknown s = staged_unknown s \<and> log s = log s" by simp
next
  fix x t
  assume x: "x \<in> set xs" and i: "quiet s t \<and> staged_unknown t = staged_unknown s \<and> log t = log s"
  from x assms have st: "stable s x (joinpath dir (name_of x))" by blast
  from i have q: "quiet s t" by simp
  from copy_if_absent_quiet[OF quiet_stable[OF q st]]
  obtain t' where c: "copy_if_absent x (joinpath dir (name_of x)) t = (None, t')"
    and q': "quiet t t'" by blast
  have l: "staged_unknown t' = staged_unknown t" "log t' = log t"
    using copy_if_absent_locals(3,4)[of x "joinpath dir (name_of x)" t] c by simp_all
  from quiet_trans[OF q q'] l i c
  show "\<exists>t'. flush_copy dir x t = (None, t')
             \<and> quiet s t' \<and> staged_unknown t' = staged_unknown s \<and> log t' = log s"
    by (simp add: flush_copy_def)
qed

lemma ensure_loop_present:
  assumes "\<forall>person \<in> set xs. joinpath out_dir person \<in> dirs s"
  shows "for_each (\<lambda>person. ensure_dir (joinpath out_dir person)) xs s = (None, s)"
  using assms by (induction xs) (simp_all add: ensure_dir_def)

lemma write_file_quiet:
  assumes "p \<notin> dirs s" "p \<notin> denied s" "parent p \<in> dirs s" "is_file s p"
  shows "\<exists>s'. write_file p c s = (None, s') \<and> quiet s s'"
  using assms by (auto simp: write_file_def quiet_def same_tree_def is_file_def)

lemma after_dirs_again:
  fixes s :: state
  assumes io: "set_order io" and po: "set_order po"
    and rt: "\<forall>item \<in> set (snd (build_indices records labels)).
           routed out_dir
             (cluster_to_name_of
                (eligible_clusters_of records group_thr (fst (build_indices records labels))))
             (eligible_clusters_of records group_thr (fst (build_indices records labels)))
             labels item s"
    and persons: "\<forall>person \<in> set (map snd (cluster_to_name_of
            (eligible_clusters_of records group_thr (fst (build_indices records labels))))).
           joinpath out_dir person \<in> dirs s"
    and rp: "joinpath out_dir ''clustering_report.csv'' \<notin> dirs s"
      "joinpath out_dir ''clustering_report.csv'' \<notin> denied s"
      "parent (joinpath out_dir ''clustering_report.csv'') \<in> dirs s"
      "is_file s (joinpath out_dir ''clustering_report.csv'')"
    and staged: "staged_group_only s = []" "staged_unknown s = []"
  shows "\<exists>s'. after_dirs io po records labels out_dir group_thr s = (None, s') \<and> quiet s s'"
proof -
  let ?E = "eligible_clusters_of records group_thr (fst (build_indices records labels))"
  let ?c2n = "cluster_to_name_of ?E"
  let ?G = "joinpath out_dir ''__group_only__''" and ?U = "joinpath out_dir ''__unknown__''"
  let ?rp = "joinpath out_dir ''clustering_report.csv''"
  let ?I = "\<lambda>t::state. quiet s t
       \<and> (\<forall>src \<in> set (staged_group_only t). stable s src (joinpath ?G (name_of src)))
       \<and> (\<forall>src \<in> set (staged_unknown t). stable s src (joinpath ?U (name_of src)))"
  have e: "for_each (\<lambda>person. ensure_dir (joinpath out_dir person)) (map snd ?c2n) s = (None, s)"
    by (rule ensure_loop_present[OF persons])
  have "\<exists>s5. for_each (route_image io records labels out_dir ?E ?c2n)
               (snd (build_indices records labels)) s = (None, s5) \<and> ?I s5"
  proof (rule for_each_total[where I = ?I])
    show "?I s" using staged by simp
  next
    fix x t
    assume x: "x \<in> set (snd (build_indices records labels))" and i: "?I t"
    from i have q: "quiet s t" by simp
    from rt x have r: "routed out_dir ?c2n ?E labels x s" by blast
    have pl: "\<forall>lab. to_person ?E labels (snd x) lab \<longrightarrow>
        (\<exists>person. map_of ?c2n lab = Some person
                  \<and> stable t (fst x) (person_dst out_dir person (fst x)))"
      using r quiet_stable[OF q] unfolding routed_def by blast
    from route_image_quiet[OF io pl, of records] obtain t' where
      run: "route_image io records labels out_dir ?E ?c2n x t = (None, t')" and q': "quiet t t'"
      and g: "set (staged_group_only t')
         = set (staged_group_only t) \<union> (if to_group_only ?E labels (snd x) then {fst x} else {})"
      and u: "set (staged_unknown t')
         = set (staged_unknown t) \<union> (if to_unknown labels (snd x) then {fst x} else {})"
      by blast
    have g': "\<forall>src \<in> set (staged_group_only t'). stable s src (joinpath ?G (name_of src))"
    proof
      fix src assume "src \<in> set (staged_group_only t')"
      with g have "src \<in> set (staged_group_only t) \<or> (to_group_only ?E labels (snd x) \<and> src = fst x)"
        by (auto split: if_splits)
      then show "stable s src (joinpath ?G (name_of src))"
        using i r unfolding routed_def by blast
    qed
    have u': "\<forall>src \<in> set (staged_unknown t'). stable s src (joinpath ?U (name_of src))"
    proof
      fix src assume "src \<in> set (staged_unknown t')"
      with u have "src \<in> set (staged_unknown t) \<or> (to_unknown labels (snd x) \<and> src = fst x)"
        by (auto split: if_splits)
      then show "stable s src (joinpath ?U (name_of src))"
        using i r unfolding routed_def by blast
    qed
    from quiet_trans[OF q q'] g' u' run
    show "\<exists>t'. route_image io records labels out_dir ?E ?c2n x t = (None, t') \<and> ?I t'" by blast
  qed
  then obtain s5 where
    r: "for_each (route_image io records labels out_dir ?E ?c2n)
               (snd (build_indices records labels)) s = (None, s5)"
    and q5: "quiet s s5"
    and g5: "\<forall>src \<in> set (staged_group_only s5). stable s src (joinpath ?G (name_of src))"
    and u5: "\<forall>src \<in> set (staged_unknown s5). stable s src (joinpath ?U (name_of src))"
    by blast
  have sg: "set (po (staged_group_only s5)) = set (staged_group_only s5)"
    using po by (simp add: set_order_def)
  have "\<forall>src \<in> set (po (staged_group_only s5)). stable s5 src (joinpath ?G (name_of src))"
    unfolding sg using g5 quiet_stable[OF q5] by blast
  from flush_loop_quiet[OF this] obtain s6 where
    g: "for_each (flush_copy ?G) (po (staged_group_only s5)) s5 = (None, s6)"
    and q56: "quiet s5 s6" and l6: "staged_unknown s6 = staged_unknown s5" by blast
  note q6 = quiet_trans[OF q5 q56]
  have su: "set (po (staged_unknown s6)) = set (staged_unknown s5)"
    using po l6 by (simp add: set_order_def)
  have "\<forall>src \<in> set (po (staged_unknown s6)). stable s6 src (joinpath ?U (name_of src))"
    unfolding su using u5 quiet_stable[OF q6] by blast
  from flush_loop_quiet[OF this] obtain s7 where
    u: "for_each (flush_copy ?U) (po (staged_unknown s6)) s6 = (None, s7)"
    and q67: "quiet s6 s7" by blast
  note q7 = quiet_trans[OF q6 q67]
  have t7: "dirs s7 = dirs s" "denied s7 = denied s" "dom (files s7) = dom (files s)"
    using q7 by (simp_all add: quiet_def same_tree_def)
  have f7: "is_file s7 ?rp" using rp(4) t7(3) by (auto simp: is_file_def)
  from write_file_quiet[of ?rp s7 "Report (log s7)"] rp t7 f7 obtain s' where
    w: "write_file ?rp (Report (log s7)) s7 = (None, s')" and q78: "quiet s7 s'" by auto
  have "after_dirs io po records labels out_dir group_thr s = (None, s')"
    unfolding after_dirs_def Let_def by (simp only: e r g u w and_then_simps)
  with quiet_trans[OF q7 q78] show ?thesis by blast
qed

lemma fs_of_fields [simp]:
  "dirs (fs_of s) = dirs s" "files (fs_of s) = files s" "denied (fs_of s) = denied s"
  "journal (fs_of s) = journal s"
  unfolding fs_of_def by simp_all

lemma ensure_dir_present: "p \<in> dirs s \<Longrightarrow> ensure_dir p s = (None, s)"
  by (simp add: ensure_dir_def)

lemma route_run_again:
  assumes io: "set_order io" and po: "set_order po"
    and io': "set_order io'" and po': "set_order po'"
    and run: "route_run io po records labels out_dir group_thr f = (None, s1)"
  shows "\<exists>s2. route_run io' po' records labels out_dir group_thr (fs_of s1) = (None, s2)
              \<and> quiet s1 s2"
proof -
  let ?E = "eligible_clusters_of records group_thr (fst (build_indices records labels))"
  let ?c2n = "cluster_to_name_of ?E"
  let ?t0 = "init_state (fs_of s1)"
  have eq: "dirs ?t0 = dirs s1" "files ?t0 = files s1" "denied ?t0 = denied s1"
    "journal ?t0 = journal s1"
    by simp_all
  have q0: "quiet s1 ?t0" by (rule quiet_fs_eq) (simp_all add: eq)
  have top: "{out_dir, joinpath out_dir ''__unknown__'', joinpath out_dir ''__group_only__''}
           \<subseteq> dirs s1"
    using route_run_dirs_returned[of io po records labels out_dir group_thr f] run by simp
  from run obtain a b c where
    rest: "after_dirs io po records labels out_dir group_thr c = (None, s1)"
    by (rule route_run_NoneE)
  note left = after_dirs_left[OF rest]
  have rt1: "\<forall>item \<in> set (snd (build_indices records labels)).
           routed out_dir ?c2n ?E labels item s1"
    by (rule route_run_routes[OF io po run])
  have rt: "\<forall>item \<in> set (snd (build_indices records labels)).
           routed out_dir ?c2n ?E labels item ?t0"
    using rt1 routed_grown[OF _ grown_fs_eq[OF eq(1,2,3)]] by blast
  have e1: "ensure_dir out_dir ?t0 = (None, ?t0)"
    using top by (intro ensure_dir_present) (simp add: eq)
  have e2: "ensure_dir (joinpath out_dir ''__unknown__'') ?t0 = (None, ?t0)"
    using top by (intro ensure_dir_present) (simp add: eq)
  have e3: "ensure_dir (joinpath out_dir ''__group_only__'') ?t0 = (None, ?t0)"
    using top by (intro ensure_dir_present) (simp add: eq)
  have "\<exists>s2. after_dirs io' po' records labels out_dir group_thr ?t0 = (None, s2) \<and> quiet ?t0 s2"
  proof (rule after_dirs_again[OF io' po' rt])
    show "\<forall>person \<in> set (map snd ?c2n). joinpath out_dir person \<in> dirs ?t0"
      using left unfolding eq by blast
    show "joinpath out_dir ''clustering_report.csv'' \<notin> dirs ?t0"
      "joinpath out_dir ''clustering_report.csv'' \<notin> denied ?t0"
      "parent (joinpath out_dir ''clustering_report.csv'') \<in> dirs ?t0"
      using left unfolding eq by blast+
    show "is_file ?t0 (joinpath out_dir ''clustering_report.csv'')"
      using left by (simp add: is_file_def eq)
    show "staged_group_only ?t0 = []" "staged_unknown ?t0 = []" by simp_all
  qed
  then obtain s2 where
    a2: "after_dirs io' po' records labels out_dir group_thr ?t0 = (None, s2)"
    and q2: "quiet ?t0 s2" by blast
  have "route_run io' po' records labels out_dir group_thr (fs_of s1) = (None, s2)"
    unfolding route_run_def by (simp only: e1 e2 e3 a2 and_then_simps)
  with quiet_trans[OF q0 q2] show ?thesis by blast
qed

text \<open>
  C1. Every call of \<open>route_by_clusters\<close> makes at most one copy of an image \<open>src\<close> into
  a folder directly under the output root (a person folder, \<^verbatim>\<open>__group_only__\<close> or
  \<^verbatim>\<open>__unknown__\<close>), whatever order the sets are iterated in. If a call returns and is
  repeated on the file system it left, with the same records, labels, output root and
  threshold, the second call returns as well and leaves the same directories and the same
  file names; a copy it makes again can only be one whose destination was a directory.
\<close>

theorem one_copy_per_image_and_bucket:
  assumes "set_order io" and "set_order po" and "set_order io'" and "set_order po'"
    and "nm \<noteq> []"
  shows "copies (in_bucket src (out_dir @ [nm]))
           (snd (route_by_clusters io po records labels out_dir group_thr f))
         \<le> copies (in_bucket src (out_dir @ [nm])) f + 1
    \<and> ((\<exists>r. fst (route_by_clusters io po records labels out_dir group_thr f) = Inr r) \<longrightarrow>
         (\<exists>r. fst (route_by_clusters io' po' records labels out_dir group_thr
                     (fs_of (snd (route_by_clusters io po records labels out_dir group_thr f))))
               = Inr r)
         \<and> quiet (snd (route_by_clusters io po records labels out_dir group_thr f))
             (snd (route_by_clusters io' po' records labels out_dir group_thr
                     (fs_of (snd (route_by_clusters io po records labels out_dir group_thr f))))))"
proof (rule conjI)
  show "copies (in_bucket src (out_dir @ [nm]))
           (snd (route_by_clusters io po records labels out_dir group_thr f))
         \<le> copies (in_bucket src (out_dir @ [nm])) f + 1"
    unfolding route_by_clusters_run(1) by (rule route_run_bucket[OF assms(1,2,5)])
next
  let ?s1 = "snd (route_run io po records labels out_dir group_thr f)"
  show "(\<exists>r. fst (route_by_clusters io po records labels out_dir group_thr f) = Inr r) \<longrightarrow>
         (\<exists>r. fst (route_by_clusters io' po' records labels out_dir group_thr
                     (fs_of (snd (route_by_clusters io po records labels out_dir group_thr f))))
               = Inr r)
         \<and> quiet (snd (route_by_clusters io po records labels out_dir group_thr f))
             (snd (route_by_clusters io' po' records labels out_dir group_thr
                     (fs_of (snd (route_by_clusters io po records labels out_dir group_thr f)))))"
  proof
    assume "\<exists>r. fst (route_by_clusters io po records labels out_dir group_thr f) = Inr r"
    then have "fst (route_run io po records labels out_dir group_thr f) = None"
      by (simp only: route_by_clusters_run(2))
    then have run: "route_run io po records labels out_dir group_thr f = (None, ?s1)"
      by (metis prod.collapse)
    from route_run_again[OF assms(1,2,3,4) run] obtain s2 where
      r2: "route_run io' po' records labels out_dir group_thr (fs_of ?s1) = (None, s2)"
      and q: "quiet ?s1 s2" by blast
    have a: "fst (route_run io' po' records labels out_dir group_thr (fs_of ?s1)) = None"
      by (simp add: r2)
    have b: "snd (route_run io' po' records labels out_dir group_thr (fs_of ?s1)) = s2"
      by (simp add: r2)
    show "(\<exists>r. fst (route_by_clusters io' po' records labels out_dir group_thr
                     (fs_of (snd (route_by_clusters io po records labels out_dir group_thr f))))
               = Inr r)
         \<and> quiet (snd (route_by_clusters io po records labels out_dir group_thr f))
             (snd (route_by_clusters io' po' records labels out_dir group_thr
                     (fs_of (snd (route_by_clusters io po records labels out_dir group_thr f)))))"
      unfolding route_by_clusters_run(1) route_by_clusters_run(2) b using a q by simp
  qed
qed

theorem one_copy_per_image_and_bucket_witness:
  "set_order (remdups :: int list \<Rightarrow> int list) \<and> set_order (remdups :: path list \<Rightarrow> path list)
   \<and> ''__group_only__'' \<noteq> []
   \<and> copies (in_bucket [''in'', ''c.jpg''] ([''out''] @ [''__group_only__'']))
       (snd (route_by_clusters remdups remdups recs3 [0, 0, 1] [''out''] 3 fs_photos))
     \<le> copies (in_bucket [''in'', ''c.jpg''] ([''out''] @ [''__group_only__''])) fs_photos + 1
   \<and> (\<exists>r. fst (route_by_clusters remdups remdups recs3 [0, 0, 1] [''out''] 3 fs_photos) = Inr r)
   \<and> (\<exists>r. fst (route_by_clusters remdups remdups recs3 [0, 0, 1] [''out''] 3
               (fs_of (snd (route_by_clusters remdups remdups recs3 [0, 0, 1] [''out''] 3 fs_photos))))
            = Inr r)
   \<and> quiet (snd (route_by_clusters remdups remdups recs3 [0, 0, 1] [''out''] 3 fs_photos))
       (snd (route_by_clusters remdups remdups recs3 [0, 0, 1] [''out''] 3
               (fs_of (snd (route_by_clusters remdups remdups recs3 [0, 0, 1] [''out''] 3 fs_photos)))))"
proof -
  have o1: "set_order (remdups :: int list \<Rightarrow> int list)" by (simp add: set_order_def)
  have o2: "set_order (remdups :: path list \<Rightarrow> path list)" by (simp add: set_order_def)
  have n: "''__group_only__'' \<noteq> []" by simp
  have d0: "fst (route_by_clusters remdups remdups recs3 [0, 0, 1] [''out''] 3 fs_photos)
              = Inr ([(0, ''person_000'')], [''out'', ''clustering_report.csv''], {0})"
    by code_simp
  have d: "\<exists>r. fst (route_by_clusters remdups remdups recs3 [0, 0, 1] [''out''] 3 fs_photos) = Inr r"
    unfolding d0 by blast
  show ?thesis
    using one_copy_per_image_and_bucket[OF o1 o2 o1 o2 n,
            of "[''in'', ''c.jpg'']" "[''out'']" recs3 "[0, 0, 1]" 3 fs_photos] o1 o2 n d
    by blast
qed

section \<open>Coverage\<close>

lemma image_of_record:
  "i < min (length records) (length labels)
     \<Longrightarrow> (img_path (records ! i), indices_of_image records labels (img_path (records ! i)))
           \<in> set (snd (build_indices records labels))"
  unfolding image_entry indices_of_image_def by blast

lemma minus_one_not_eligible:
  "- 1 \<notin> eligible_clusters_of records group_thr (fst (build_indices records labels))"
  by (simp add: eligible_iff)

lemma returned_run:
  assumes "fst (route_by_clusters io po records labels out_dir group_thr f) = Inr r"
  shows "route_run io po records labels out_dir group_thr f
           = (None, snd (route_by_clusters io po records labels out_dir group_thr f))"
proof -
  from assms have "\<exists>r. fst (route_by_clusters io po records labels out_dir group_thr f) = Inr r"
    by blast
  then have "fst (route_run io po records labels out_dir group_thr f) = None"
    by (simp only: route_by_clusters_run(2))
  then show ?thesis unfolding route_by_clusters_run(1) by (metis prod.collapse)
qed

lemma returned_routed:
  assumes io: "set_order io" and po: "set_order po"
    and ret: "fst (route_by_clusters io po records labels out_dir group_thr f) = Inr r"
    and i: "i < min (length records) (length labels)"
  shows "routed out_dir
           (cluster_to_name_of
              (eligible_clusters_of records group_thr (fst (build_indices records labels))))
           (eligible_clusters_of records group_thr (fst (build_indices records labels)))
           labels
           (img_path (records ! i), indices_of_image records labels (img_path (records ! i)))
           (snd (route_by_clusters io po records labels out_dir group_thr f))"
  using route_run_routes[OF io po returned_run[OF ret]] image_of_record[OF i] by blast

lemma shared_bucket_bound:
  assumes "set_order io" and "set_order po" and "nm \<noteq> []"
  shows "copies (in_bucket src (joinpath out_dir nm))
           (snd (route_by_clusters io po records labels out_dir group_thr f))
         \<le> copies (in_bucket src (joinpath out_dir nm)) f + 1"
  using route_run_bucket[OF assms, of src out_dir records labels group_thr f] assms(3)
  unfolding route_by_clusters_run(1) by (simp add: joinpath_def)

section \<open>Images without a record\<close>

lemma person_loop_staged:
  "staged_group_only (snd (for_each (copy_to_person records labels out_dir c2n src idxs) labs s))
     = staged_group_only s
   \<and> staged_unknown (snd (for_each (copy_to_person records labels out_dir c2n src idxs) labs s))
     = staged_unknown s"
  by (rule for_each_always[where I = "\<lambda>t. staged_group_only t = staged_group_only s
                                        \<and> staged_unknown t = staged_unknown s"])
     (simp_all add: copy_to_person_staged)

lemma route_image_staged:
  "set (staged_group_only (snd (route_image io records labels out_dir E c2n item s)))
     \<subseteq> insert (fst item) (set (staged_group_only s))
   \<and> set (staged_unknown (snd (route_image io records labels out_dir E c2n item s)))
     \<subseteq> insert (fst item) (set (staged_unknown s))"
proof -
  let ?loop = "for_each (copy_to_person records labels out_dir c2n (fst item) (snd item))
             (eligible_on_image io E (labs_on_image io labels (snd item))) s"
  note st = person_loop_staged[of records labels out_dir c2n "fst item" "snd item"
              "eligible_on_image io E (labs_on_image io labels (snd item))" s]
  obtain r t where l: "?loop = (r, t)" by (cases ?loop)
  show ?thesis
  proof (cases r)
    case None
    from route_image_tail[OF l[unfolded None]] obtain l1 l2 where
      "route_image io records labels out_dir E c2n item s =
       (None, t\<lparr>staged_group_only :=
                   (if ineligible_on_image io E (labs_on_image io labels (snd item)) \<noteq> []
                    then staged_group_only t @ [fst item] else staged_group_only t),
                 staged_unknown :=
                   (if \<not> has_any_cluster (labs_on_image io labels (snd item))
                    then staged_unknown t @ [fst item] else staged_unknown t),
                 log := log t @ l1 @ l2\<rparr>)" by blast
    then show ?thesis using st l by auto
  next
    case (Some e)
    from route_image_raise[OF l[unfolded Some]] st l show ?thesis by auto
  qed
qed

lemma route_image_untouched:
  assumes "untouched src c s" and "fst item \<noteq> src"
  shows "untouched src c (snd (route_image io records labels out_dir E c2n item s))"
proof -
  have "length (filter (\<lambda>lab. \<exists>person. map_of c2n lab = Some person
           \<and> fst (fst item, person_dst out_dir person (fst item)) = src)
           (eligible_on_image io E (labs_on_image io labels (snd item)))) = 0"
    using assms(2) by simp
  with route_image_copies[of "\<lambda>e. fst e = src" io records labels out_dir E c2n item s]
  have "copies (\<lambda>e. fst e = src) (snd (route_image io records labels out_dir E c2n item s))
          \<le> copies (\<lambda>e. fst e = src) s" by simp
  with assms route_image_staged[of io records labels out_dir E c2n item s]
  show ?thesis unfolding untouched_def by auto
qed

lemma flush_copy_untouched:
  assumes "untouched src c s" and "x \<noteq> src"
  shows "untouched src c (snd (flush_copy dir x s))"
  using assms copy_if_absent_copies[of "\<lambda>e. fst e = src" x "joinpath dir (name_of x)" s]
  unfolding untouched_def flush_copy_def by simp

lemma flush_loop_untouched:
  assumes "untouched src c s" and "src \<notin> set xs"
  shows "untouched src c (snd (for_each (flush_copy dir) xs s))"
proof (rule for_each_always[where I = "untouched src c"])
  show "untouched src c s" by fact
next
  fix x t assume "x \<in> set xs" and u: "untouched src c t"
  with assms(2) have "x \<noteq> src" by blast
  from flush_copy_untouched[OF u this] show "untouched src c (snd (flush_copy dir x t))" .
qed

lemma ensure_dir_untouched:
  "untouched src c s \<Longrightarrow> untouched src c (snd (ensure_dir p s))"
  by (simp add: untouched_def copies_def)

lemma write_file_untouched:
  "untouched src c s \<Longrightarrow> untouched src c (snd (write_file p x s))"
  by (simp add: untouched_def copies_def write_file_def)

lemma after_dirs_untouched:
  assumes po: "set_order po"
    and key: "src \<notin> fst ` set (snd (build_indices records labels))"
    and u: "untouched src c s"
  shows "untouched src c (snd (after_dirs io po records labels out_dir group_thr s))"
proof -
  have sp: "set (po xs) = set xs" for xs using po by (simp add: set_order_def)
  have w: "untouched src c t \<Longrightarrow> untouched src c (snd (write_file p (Report (log t)) t))" for t p
    by (rule write_file_untouched)
  have fu: "untouched src c t \<Longrightarrow>
      untouched src c (snd (and_then (for_each (flush_copy dir) (po (staged_unknown t)) t)
              (\<lambda>s. write_file p (Report (log s)) s)))" for t dir p
    by (rule and_then_always[where I = "untouched src c"], rule flush_loop_untouched)
       (simp_all add: untouched_def sp w[unfolded untouched_def])
  have fg: "untouched src c t \<Longrightarrow>
      untouched src c (snd (and_then (for_each (flush_copy dir) (po (staged_group_only t)) t)
              (\<lambda>s. and_then (for_each (flush_copy dir') (po (staged_unknown s)) s)
              (\<lambda>s. write_file p (Report (log s)) s))))" for t dir dir' p
    by (rule and_then_always[where I = "untouched src c"], rule flush_loop_untouched)
       (simp_all add: untouched_def sp fu[unfolded untouched_def])
  have fi: "untouched src c t \<Longrightarrow>
      untouched src c (snd (for_each (route_image io records labels out_dir E c2n)
              (snd (build_indices records labels)) t))" for t E c2n
  proof (rule for_each_always[where I = "untouched src c"])
    fix x t assume "x \<in> set (snd (build_indices records labels))" and v: "untouched src c t"
    with key have "fst x \<noteq> src" by blast
    from route_image_untouched[OF v this]
    show "untouched src c (snd (route_image io records labels out_dir E c2n x t))" .
  qed
  have fe: "untouched src c (snd (for_each (\<lambda>person. ensure_dir (joinpath out_dir person)) xs s))"
    for xs
    by (rule for_each_always[where I = "untouched src c"]) (simp_all add: u ensure_dir_untouched)
  show ?thesis
    unfolding after_dirs_def Let_def
    apply (rule and_then_always[where I = "untouched src c", OF fe])
    apply (rule and_then_always[where I = "untouched src c"])
     apply (erule fi)
    apply (erule fg)
    done
qed

lemma route_run_untouched:
  assumes po: "set_order po"
    and key: "src \<notin> fst ` set (snd (build_indices records labels))"
  shows "copies (\<lambda>e. fst e = src) (snd (route_run io po records labels out_dir group_thr f))
           \<le> copies (\<lambda>e. fst e = src) f"
proof -
  let ?c = "copies (\<lambda>e. fst e = src) f"
  have u0: "untouched src ?c (init_state f)" by (simp add: untouched_def copies_def)
  have "untouched src ?c (snd (route_run io po records labels out_dir group_thr f))"
    unfolding route_run_def
    apply (rule and_then_always[where I = "untouched src ?c"])
     apply (rule ensure_dir_untouched[OF u0])
    apply (rule and_then_always[where I = "untouched src ?c"])
     apply (erule ensure_dir_untouched)
    apply (rule and_then_always[where I = "untouched src ?c"])
     apply (erule ensure_dir_untouched)
    apply (erule after_dirs_untouched[OF po key])
    done
  then show ?thesis by (simp add: untouched_def)
qed

lemma image_keys_records:
  "fst ` set (snd (build_indices records labels)) \<subseteq> img_path ` set records"
proof
  fix src assume "src \<in> fst ` set (snd (build_indices records labels))"
  then obtain idxs where "(src, idxs) \<in> set (snd (build_indices records labels))" by force
  then obtain i where "i < min (length records) (length labels)" "img_path (records ! i) = src"
    unfolding image_entry by blast
  then show "src \<in> img_path ` set records" by (metis min_less_iff_conj nth_mem imageI)
qed

lemma collect_faces_paths:
  "img_path ` set (collect_faces blurred detect fls)
     \<subseteq> {p \<in> set fls. \<not> blurred p \<and> detect p \<noteq> []}"
  by (auto simp: collect_faces_def records_of_image_def in_set_enumerate_eq split: if_splits)

lemma main_untouched:
  assumes po: "set_order po" and p: "blurred p \<or> detect p = []"
  shows "copies (\<lambda>e. fst e = p) (snd (main blurred detect fit_predict io po a fls f))
           \<le> copies (\<lambda>e. fst e = p) f"
proof -
  let ?records = "collect_faces blurred detect fls"
  have key: "p \<notin> fst ` set (snd (build_indices ?records labels))" for labels
    using image_keys_records[of ?records labels] collect_faces_paths[of blurred detect fls] p
    by auto
  have r: "copies (\<lambda>e. fst e = p)
             (snd (route_by_clusters io po ?records labels (args_out_dir a) (args_group_thr a) f))
           \<le> copies (\<lambda>e. fst e = p) f" for labels
    unfolding route_by_clusters_run(1) by (rule route_run_untouched[OF po key])
  have c: "copies (\<lambda>e. fst e = p) (fs_of s) = copies (\<lambda>e. fst e = p) s" for s
    by (simp add: copies_def)
  show ?thesis
  proof (cases "?records = []")
    case True
    then show ?thesis by (simp add: main_def)
  next
    case False
    show ?thesis
    proof (cases "cluster_faces fit_predict ?records (args_eps_sim a) (args_min_samples a)")
      case (Inl e)
      with False show ?thesis by (simp add: main_def)
    next
      case (Inr labels)
      obtain x s where rr: "route_by_clusters io po ?records labels (args_out_dir a)
                              (args_group_thr a) f = (x, s)"
        by (cases "route_by_clusters io po ?records labels (args_out_dir a) (args_group_thr a) f")
      from r[of labels] rr have le: "copies (\<lambda>e. fst e = p) s \<le> copies (\<lambda>e. fst e = p) f"
        by simp
      show ?thesis
        using False Inr rr le c[of s] by (auto simp: main_def split: sum.splits prod.splits)
    qed
  qed
qed

section \<open>Copies only where the policy decides\<close>

lemma route_image_staged_exact:
  assumes io: "set_order io"
  shows "set (staged_group_only (snd (route_image io records labels out_dir E c2n item s)))
     \<subseteq> set (staged_group_only s)
         \<union> (if to_group_only E labels (snd item) then {fst item} else {})
   \<and> set (staged_unknown (snd (route_image io records labels out_dir E c2n item s)))
     \<subseteq> set (staged_unknown s) \<union> (if to_unknown labels (snd item) then {fst item} else {})"
proof -
  let ?loop = "for_each (copy_to_person records labels out_dir c2n (fst item) (snd item))
             (eligible_on_image io E (labs_on_image io labels (snd item))) s"
  note st = person_loop_staged[of records labels out_dir c2n "fst item" "snd item"
              "eligible_on_image io E (labs_on_image io labels (snd item))" s]
  obtain r t where l: "?loop = (r, t)" by (cases ?loop)
  from st l have t: "staged_group_only t = staged_group_only s"
    "staged_unknown t = staged_unknown s" by simp_all
  show ?thesis
  proof (cases r)
    case None
    from route_image_tail[OF l[unfolded None]] obtain l1 l2 where
      r: "route_image io records labels out_dir E c2n item s =
       (None, t\<lparr>staged_group_only :=
                   (if ineligible_on_image io E (labs_on_image io labels (snd item)) \<noteq> []
                    then staged_group_only t @ [fst item] else staged_group_only t),
                 staged_unknown :=
                   (if \<not> has_any_cluster (labs_on_image io labels (snd item))
                    then staged_unknown t @ [fst item] else staged_unknown t),
                 log := log t @ l1 @ l2\<rparr>)" by blast
    show ?thesis
      unfolding r using t by (simp add: ineligible_nonempty[OF io] no_cluster_iff[OF io])
  next
    case (Some e)
    from route_image_raise[OF l[unfolded Some]] t show ?thesis by simp
  qed
qed

lemma decided_person:
  assumes "to_person E labels idxs lab" and "map_of c2n lab = Some person"
  shows "decided out_dir c2n E labels src idxs (person_dst out_dir person src)"
  using assms unfolding decided_def to_person_def by force

lemma route_image_kept:
  assumes io: "set_order io"
    and sub: "\<And>e. P e \<Longrightarrow> stray_copy out_dir c2n E labels src idxs e"
    and k: "kept_to src P (to_group_only E labels idxs) (to_unknown labels idxs) c s"
    and key: "fst item = src \<longrightarrow> snd item = idxs"
  shows "kept_to src P (to_group_only E labels idxs) (to_unknown labels idxs) c
           (snd (route_image io records labels out_dir E c2n item s))"
proof -
  let ?s' = "snd (route_image io records labels out_dir E c2n item s)"
  have none: "\<not> (\<exists>person. map_of c2n lab = Some person
                   \<and> P (fst item, person_dst out_dir person (fst item)))"
    if lab: "lab \<in> set (eligible_on_image io E (labs_on_image io labels (snd item)))" for lab
  proof
    assume "\<exists>person. map_of c2n lab = Some person
              \<and> P (fst item, person_dst out_dir person (fst item))"
    then obtain person where m: "map_of c2n lab = Some person"
      and p0: "P (fst item, person_dst out_dir person (fst item))" by blast
    note p = sub[OF p0]
    from p have eq: "fst item = src" by (simp add: stray_copy_def)
    from p have nd: "\<not> decided out_dir c2n E labels src idxs (person_dst out_dir person src)"
      unfolding stray_copy_def eq by simp
    from lab have "to_person E labels (snd item) lab"
      unfolding set_eligible_on_image[OF io] by simp
    with key eq have "to_person E labels idxs lab" by simp
    from decided_person[OF this m] nd show False by blast
  qed
  have "filter (\<lambda>lab. \<exists>person. map_of c2n lab = Some person
                  \<and> P (fst item, person_dst out_dir person (fst item)))
          (eligible_on_image io E (labs_on_image io labels (snd item))) = []"
    unfolding filter_empty_conv using none by blast
  with route_image_copies[of P io records labels out_dir E c2n item s]
  have c: "copies P ?s' \<le> copies P s" by simp
  note st = route_image_staged_exact[OF io, of records labels out_dir E c2n item s]
  have g: "src \<in> set (staged_group_only ?s') \<longrightarrow> to_group_only E labels idxs"
  proof
    assume "src \<in> set (staged_group_only ?s')"
    with st have "src \<in> set (staged_group_only s)
        \<or> (to_group_only E labels (snd item) \<and> src = fst item)"
      by (auto split: if_splits)
    then show "to_group_only E labels idxs" using k key unfolding kept_to_def by auto
  qed
  have u: "src \<in> set (staged_unknown ?s') \<longrightarrow> to_unknown labels idxs"
  proof
    assume "src \<in> set (staged_unknown ?s')"
    with st have "src \<in> set (staged_unknown s)
        \<or> (to_unknown labels (snd item) \<and> src = fst item)"
      by (auto split: if_splits)
    then show "to_unknown labels idxs" using k key unfolding kept_to_def by auto
  qed
  from c g u k show ?thesis unfolding kept_to_def by simp
qed

lemma flush_loop_kept:
  assumes k: "kept_to src P g u c s"
    and xs: "src \<in> set xs \<longrightarrow> \<not> P (src, joinpath dir (name_of src))"
    and fs: "\<And>e. P e \<Longrightarrow> fst e = src"
  shows "kept_to src P g u c (snd (for_each (flush_copy dir) xs s))"
proof (rule for_each_always[where I = "kept_to src P g u c"])
  show "kept_to src P g u c s" by fact
next
  fix x and t :: state
  assume x: "x \<in> set xs" and kt: "kept_to src P g u c t"
  have "\<not> P (x, joinpath dir (name_of x))"
  proof
    assume p: "P (x, joinpath dir (name_of x))"
    from fs[OF p] have "x = src" by simp
    with x xs p show False by simp
  qed
  with copy_if_absent_copies[of P x "joinpath dir (name_of x)" t]
  have "copies P (snd (copy_if_absent x (joinpath dir (name_of x)) t)) \<le> copies P t" by simp
  with kt show "kept_to src P g u c (snd (flush_copy dir x t))"
    unfolding kept_to_def flush_copy_def by simp
qed

lemma ensure_dir_kept:
  "kept_to src P g u c s \<Longrightarrow> kept_to src P g u c (snd (ensure_dir p s))"
  by (simp add: kept_to_def copies_def)

lemma write_file_kept:
  "kept_to src P g u c s \<Longrightarrow> kept_to src P g u c (snd (write_file p x s))"
  by (simp add: kept_to_def copies_def write_file_def)

lemma image_item_indices:
  assumes "item \<in> set (snd (build_indices records labels))"
  shows "fst item = src \<longrightarrow> snd item = indices_of_image records labels src"
proof
  assume "fst item = src"
  with assms have "(src, snd item) \<in> set (snd (build_indices records labels))" by auto
  then show "snd item = indices_of_image records labels src"
    unfolding image_entry indices_of_image_def by simp
qed

lemma after_dirs_kept:
  fixes s :: state
  assumes io: "set_order io" and po: "set_order po"
    and sub: "\<And>e. P e \<Longrightarrow>
        stray_copy out_dir
          (cluster_to_name_of
             (eligible_clusters_of records group_thr (fst (build_indices records labels))))
          (eligible_clusters_of records group_thr (fst (build_indices records labels)))
          labels src (indices_of_image records labels src) e"
    and k: "kept_to src P
              (to_group_only
                 (eligible_clusters_of records group_thr (fst (build_indices records labels)))
                 labels (indices_of_image records labels src))
              (to_unknown labels (indices_of_image records labels src)) c s"
  shows "kept_to src P
              (to_group_only
                 (eligible_clusters_of records group_thr (fst (build_indices records labels)))
                 labels (indices_of_image records labels src))
              (to_unknown labels (indices_of_image records labels src)) c
           (snd (after_dirs io po records labels out_dir group_thr s))"
proof -
  let ?E = "eligible_clusters_of records group_thr (fst (build_indices records labels))"
  let ?idxs = "indices_of_image records labels src"
  let ?K = "kept_to src P (to_group_only ?E labels ?idxs) (to_unknown labels ?idxs) c"
  let ?G = "joinpath out_dir ''__group_only__''" and ?U = "joinpath out_dir ''__unknown__''"
  let ?rp = "joinpath out_dir ''clustering_report.csv''"
  have sp: "set (po xs) = set xs" for xs using po by (simp add: set_order_def)
  have fs: "fst e = src" if "P e" for e using sub[OF that] by (simp add: stray_copy_def)
  have w: "?K t \<Longrightarrow> ?K (snd (write_file ?rp (Report (log t)) t))" for t
    by (rule write_file_kept)
  have lu: "?K (snd (for_each (flush_copy ?U) (po (staged_unknown t)) t))" if kt: "?K t" for t
  proof (rule flush_loop_kept[OF kt _ fs])
    show "src \<in> set (po (staged_unknown t)) \<longrightarrow> \<not> P (src, joinpath ?U (name_of src))"
    proof
      assume "src \<in> set (po (staged_unknown t))"
      with kt have "to_unknown labels ?idxs" unfolding sp kept_to_def by simp
      then have "\<not> stray_copy out_dir (cluster_to_name_of ?E) ?E labels src ?idxs
                     (src, joinpath ?U (name_of src))"
        unfolding stray_copy_def decided_def by simp
      with sub show "\<not> P (src, joinpath ?U (name_of src))" by blast
    qed
  qed
  have lg: "?K (snd (for_each (flush_copy ?G) (po (staged_group_only t)) t))" if kt: "?K t" for t
  proof (rule flush_loop_kept[OF kt _ fs])
    show "src \<in> set (po (staged_group_only t)) \<longrightarrow> \<not> P (src, joinpath ?G (name_of src))"
    proof
      assume "src \<in> set (po (staged_group_only t))"
      with kt have "to_group_only ?E labels ?idxs" unfolding sp kept_to_def by simp
      then have "\<not> stray_copy out_dir (cluster_to_name_of ?E) ?E labels src ?idxs
                     (src, joinpath ?G (name_of src))"
        unfolding stray_copy_def decided_def by simp
      with sub show "\<not> P (src, joinpath ?G (name_of src))" by blast
    qed
  qed
  have fu: "?K t \<Longrightarrow>
      ?K (snd (and_then (for_each (flush_copy ?U) (po (staged_unknown t)) t)
              (\<lambda>s. write_file ?rp (Report (log s)) s)))" for t
    by (rule and_then_always[where I = ?K], erule lu, erule w)
  have fg: "?K t \<Longrightarrow>
      ?K (snd (and_then (for_each (flush_copy ?G) (po (staged_group_only t)) t)
              (\<lambda>s. and_then (for_each (flush_copy ?U) (po (staged_unknown s)) s)
              (\<lambda>s. write_file ?rp (Report (log s)) s))))" for t
    by (rule and_then_always[where I = ?K], erule lg, erule fu)
  have fi: "?K t \<Longrightarrow>
      ?K (snd (for_each (route_image io records labels out_dir ?E (cluster_to_name_of ?E))
              (snd (build_indices records labels)) t))" for t
  proof (rule for_each_always[where I = ?K])
    fix x and v :: state
    assume x: "x \<in> set (snd (build_indices records labels))" and kv: "?K v"
    show "?K (snd (route_image io records labels out_dir ?E (cluster_to_name_of ?E) x v))"
      by (rule route_image_kept[OF io sub kv image_item_indices[OF x]])
  qed
  have fe: "?K (snd (for_each (\<lambda>person. ensure_dir (joinpath out_dir person)) xs s))" for xs
    by (rule for_each_always[where I = ?K]) (simp_all add: k ensure_dir_kept)
  show ?thesis
    unfolding after_dirs_def Let_def
    apply (rule and_then_always[where I = ?K, OF fe])
    apply (rule and_then_always[where I = ?K])
     apply (erule fi)
    apply (erule fg)
    done
qed

lemma route_run_decided:
  assumes io: "set_order io" and po: "set_order po"
    and sub: "\<And>e. P e \<Longrightarrow>
        stray_copy out_dir
          (cluster_to_name_of
             (eligible_clusters_of records group_thr (fst (build_indices records labels))))
          (eligible_clusters_of records group_thr (fst (build_indices records labels)))
          labels src (indices_of_image records labels src) e"
  shows "copies P (snd (route_run io po records labels out_dir group_thr f)) \<le> copies P f"
proof -
  let ?E = "eligible_clusters_of records group_thr (fst (build_indices records labels))"
  let ?idxs = "indices_of_image records labels src"
  let ?K = "kept_to src P (to_group_only ?E labels ?idxs) (to_unknown labels ?idxs) (copies P f)"
  have k0: "?K (init_state f)" by (simp add: kept_to_def copies_def)
  have "?K (snd (route_run io po records labels out_dir group_thr f))"
    unfolding route_run_def
    apply (rule and_then_always[where I = ?K])
     apply (rule ensure_dir_kept[OF k0])
    apply (rule and_then_always[where I = ?K])
     apply (erule ensure_dir_kept)
    apply (rule and_then_always[where I = ?K])
     apply (erule ensure_dir_kept)
    apply (erule after_dirs_kept[OF io po sub, rotated])
    apply assumption
    done
  then show ?thesis by (simp add: kept_to_def)
qed

lemma decided_bucket:
  assumes d: "decided out_dir (cluster_to_name_of E) E labels src idxs dst"
    and p: "parent dst = out_dir @ [b]"
  shows "(b = ''__group_only__'' \<and> to_group_only E labels idxs)
       \<or> (b = ''__unknown__'' \<and> to_unknown labels idxs)
       \<or> (\<exists>lab. to_person E labels idxs lab \<and> map_of (cluster_to_name_of E) lab = Some b)"
proof -
  from d consider
    (person) lab person where "lab \<in> labs_of labels idxs" "lab \<in> E"
      "map_of (cluster_to_name_of E) lab = Some person" "dst = person_dst out_dir person src"
    | (group) "to_group_only E labels idxs"
        "dst = joinpath (joinpath out_dir ''__group_only__'') (name_of src)"
    | (unknown) "to_unknown labels idxs"
        "dst = joinpath (joinpath out_dir ''__unknown__'') (name_of src)"
    unfolding decided_def by (auto split: option.splits)
  then show ?thesis
  proof cases
    case person
    from named_person[OF person(3)] obtain j where "person = person_name j" by blast
    then have "person \<noteq> []" by (simp add: person_name_nonempty)
    from person_dst_parent[OF this, of out_dir src] p person(4) have "b = person" by simp
    with person(1,2,3) show ?thesis by (auto simp: to_person_def)
  next
    case group
    with p have "b = ''__group_only__''"
      by (auto simp: joinpath_def parent_def butlast_append split: if_splits)
    with group(1) show ?thesis by simp
  next
    case unknown
    with p have "b = ''__unknown__''"
      by (auto simp: joinpath_def parent_def butlast_append split: if_splits)
    with unknown(1) show ?thesis by simp
  qed
qed

lemma decided_exists:
  assumes fin: "finite E"
  shows "\<exists>dst. decided out_dir (cluster_to_name_of E) E labels src idxs dst"
proof -
  from decisions_cover[of labels idxs E] consider "to_unknown labels idxs"
    | "to_group_only E labels idxs" | lab where "to_person E labels idxs lab" by blast
  then show ?thesis
  proof cases
    case 1
    then show ?thesis unfolding decided_def by blast
  next
    case 2
    then show ?thesis unfolding decided_def by blast
  next
    case 3
    then have l: "lab \<in> labs_of labels idxs" "lab \<in> E" by (simp_all add: to_person_def)
    from l(2) fin have "lab \<in> set (map fst (cluster_to_name_of E))"
      unfolding cluster_to_name_keys by simp
    then obtain person where m: "map_of (cluster_to_name_of E) lab = Some person"
      by (metis map_of_eq_None_iff not_Some_eq set_map)
    have "decided out_dir (cluster_to_name_of E) E labels src idxs (person_dst out_dir person src)"
      unfolding decided_def using l m by force
    then show ?thesis by blast
  qed
qed

lemma decided_unknown_only:
  assumes u: "to_unknown labels idxs" and e: "- 1 \<notin> E"
  shows "decided out_dir c2n E labels src idxs dst
           \<longleftrightarrow> dst = joinpath (joinpath out_dir ''__unknown__'') (name_of src)"
proof -
  from unknown_excludes[OF u e] have g: "\<not> to_group_only E labels idxs"
    and p: "\<not> (\<exists>lab. to_person E labels idxs lab)" by simp_all
  from p have "\<not> (\<exists>lab \<in> labs_of labels idxs. lab \<in> E
        \<and> (case map_of c2n lab of None \<Rightarrow> False
            | Some person \<Rightarrow> dst = person_dst out_dir person src))"
    unfolding to_person_def by blast
  with g u show ?thesis unfolding decided_def by blast
qed

section \<open>A destination that is already a file\<close>

lemma copy_if_absent_present:
  assumes pd: "\<And>e. P e \<Longrightarrow> snd e = d" and p: "present d P c s"
  shows "present d P c (snd (copy_if_absent x y s))"
proof (cases "y = d")
  case True
  with p have "copy_if_absent x y s = (None, s)" by (simp add: present_def copy_if_absent_def)
  with p show ?thesis by simp
next
  case False
  with pd have "\<not> P (x, y)" by fastforce
  with copy_if_absent_copies[of P x y s] have c: "copies P (snd (copy_if_absent x y s)) \<le> copies P s"
    by simp
  from p have "is_file (snd (copy_if_absent x y s)) d"
    unfolding present_def using is_file_grown[OF copy_if_absent_grown] by blast
  with c p show ?thesis unfolding present_def by simp
qed

lemma present_fs_eq:
  "files t = files s \<Longrightarrow> journal t = journal s \<Longrightarrow> present d P c s \<Longrightarrow> present d P c t"
  by (simp add: present_def is_file_def copies_def)

lemma copy_to_person_present:
  assumes pd: "\<And>e. P e \<Longrightarrow> snd e = d" and p: "present d P c s"
  shows "present d P c (snd (copy_to_person records labels out_dir c2n src idxs lab s))"
proof (cases rule: copy_to_person_cases[of c2n lab records labels out_dir src idxs s])
  case missing
  with p show ?thesis by simp
next
  case (seen person)
  have "present d P c (s\<lparr>log := log s @ log_rows records labels src idxs (\<lambda>l. l = lab)
                                    person ''eligible_person_image''\<rparr>)"
    by (rule present_fs_eq[OF _ _ p]) simp_all
  with seen(3) show ?thesis by simp
next
  case (failed person e t)
  from copy_if_absent_present[OF pd p, of src "person_dst out_dir person src"] failed(3,4)
  show ?thesis by simp
next
  case (copied person t)
  from copy_if_absent_present[OF pd p, of src "person_dst out_dir person src"] copied(3)
  have pt: "present d P c t" by simp
  have "present d P c (t\<lparr>copied_person_image := insert (person, src) (copied_person_image t),
                     log := log t @ log_rows records labels src idxs (\<lambda>l. l = lab)
                                    person ''eligible_person_image''\<rparr>)"
    by (rule present_fs_eq[OF _ _ pt]) simp_all
  with copied(4) show ?thesis by simp
qed

lemma route_image_present:
  assumes pd: "\<And>e. P e \<Longrightarrow> snd e = d" and p: "present d P c s"
  shows "present d P c (snd (route_image io records labels out_dir E c2n item s))"
proof -
  let ?loop = "for_each (copy_to_person records labels out_dir c2n (fst item) (snd item))
             (eligible_on_image io E (labs_on_image io labels (snd item))) s"
  have l: "present d P c (snd ?loop)"
    by (rule for_each_always[where I = "present d P c"])
       (simp_all add: p copy_to_person_present[OF pd])
  have j: "copies P (snd (route_image io records labels out_dir E c2n item s)) = copies P (snd ?loop)"
    by (rule copies_journal_eq[OF route_image_journal])
  from p have "is_file s d" by (simp add: present_def)
  with route_image_advanced[of s io records labels out_dir E c2n item]
  have "is_file (snd (route_image io records labels out_dir E c2n item s)) d"
    unfolding advanced_def using is_file_grown by blast
  with l j show ?thesis unfolding present_def by simp
qed

lemma flush_loop_present:
  assumes pd: "\<And>e. P e \<Longrightarrow> snd e = d" and p: "present d P c s"
  shows "present d P c (snd (for_each (flush_copy dir) xs s))"
  by (rule for_each_always[where I = "present d P c"])
     (simp_all add: p flush_copy_def copy_if_absent_present[OF pd])

lemma ensure_dir_present_file:
  "present d P c s \<Longrightarrow> present d P c (snd (ensure_dir p s))"
  by (simp add: present_def copies_def is_file_def)

lemma write_file_present:
  "present d P c s \<Longrightarrow> present d P c (snd (write_file p x s))"
  by (auto simp: present_def copies_def is_file_def write_file_def)

lemma after_dirs_present:
  fixes s :: state
  assumes pd: "\<And>e. P e \<Longrightarrow> snd e = d" and p: "present d P c s"
  shows "present d P c (snd (after_dirs io po records labels out_dir group_thr s))"
proof -
  let ?K = "present d P c :: state \<Rightarrow> bool"
  have fe: "?K (snd (for_each (\<lambda>person. ensure_dir (joinpath out_dir person)) xs s))" for xs
    by (rule for_each_always[where I = ?K]) (simp_all add: p ensure_dir_present_file)
  have fi: "?K t \<Longrightarrow> ?K (snd (for_each (route_image io records labels out_dir E c2n) items t))"
    for t E c2n items
    by (rule for_each_always[where I = ?K]) (simp_all add: route_image_present[OF pd])
  have fl: "?K t \<Longrightarrow> ?K (snd (for_each (flush_copy dir) xs t))" for t dir xs
    by (rule flush_loop_present[OF pd])
  have w: "?K t \<Longrightarrow> ?K (snd (write_file q (Report (log t)) t))" for t q
    by (rule write_file_present)
  show ?thesis
    unfolding after_dirs_def Let_def
    apply (rule and_then_always[where I = ?K, OF fe])
    apply (rule and_then_always[where I = ?K])
     apply (erule fi)
    apply (rule and_then_always[where I = ?K])
     apply (erule fl)
    apply (rule and_then_always[where I = ?K])
     apply (erule fl)
    apply (erule w)
    done
qed

lemma route_run_present:
  assumes pd: "\<And>e. P e \<Longrightarrow> snd e = d" and f: "is_file f d"
  shows "copies P (snd (route_run io po records labels out_dir group_thr f)) \<le> copies P f"
proof -
  let ?K = "present d P (copies P f) :: state \<Rightarrow> bool"
  have k0: "?K (init_state f)" using f by (simp add: present_def copies_def is_file_def)
  have "?K (snd (route_run io po records labels out_dir group_thr f))"
    unfolding route_run_def
    apply (rule and_then_always[where I = ?K])
     apply (rule ensure_dir_present_file[OF k0])
    apply (rule and_then_always[where I = ?K])
     apply (erule ensure_dir_present_file)
    apply (rule and_then_always[where I = ?K])
     apply (erule ensure_dir_present_file)
    apply (rule after_dirs_present)
     apply (erule pd)
    apply assumption
    done
  then show ?thesis by (simp add: present_def)
qed

lemma copies_split:
  "copies A t = copies (\<lambda>e. A e \<and> B e) t + copies (\<lambda>e. A e \<and> \<not> B e) t"
proof -
  have "length (filter A xs)
          = length (filter (\<lambda>e. A e \<and> B e) xs) + length (filter (\<lambda>e. A e \<and> \<not> B e) xs)" for xs
    by (induction xs) auto
  then show ?thesis by (simp add: copies_def)
qed

section \<open>Coverage of the images\<close>

lemma bucket_is_stray:
  assumes nd: "\<not> ((b = ''__group_only__'' \<and> to_group_only E labels idxs)
       \<or> (b = ''__unknown__'' \<and> to_unknown labels idxs)
       \<or> (\<exists>lab. to_person E labels idxs lab \<and> map_of (cluster_to_name_of E) lab = Some b))"
    and e: "in_bucket src (out_dir @ [b]) e"
  shows "stray_copy out_dir (cluster_to_name_of E) E labels src idxs e"
proof -
  from e have f: "fst e = src" and p: "parent (snd e) = out_dir @ [b]"
    by (simp_all add: in_bucket_def)
  from decided_bucket[OF _ p] nd
  have "\<not> decided out_dir (cluster_to_name_of E) E labels src idxs (snd e)" by blast
  with f show ?thesis by (simp add: stray_copy_def)
qed

lemma no_person_named_shared:
  assumes "b = ''__group_only__'' \<or> b = ''__unknown__''"
  shows "map_of (cluster_to_name_of E) lab \<noteq> Some b"
proof
  assume "map_of (cluster_to_name_of E) lab = Some b"
  from named_person[OF this] obtain j where "b = person_name j" by blast
  with person_name_hd[of j] assms show False by auto
qed

lemma decided_in_place:
  assumes r: "routed out_dir c2n E labels (src, idxs) s"
    and d: "decided out_dir c2n E labels src idxs dst"
  shows "exists_path s dst"
proof -
  note rt = r[unfolded routed_def fst_conv snd_conv]
  from d consider
    (person) lab person where "lab \<in> labs_of labels idxs" "lab \<in> E"
      "map_of c2n lab = Some person" "dst = person_dst out_dir person src"
    | (group) "to_group_only E labels idxs"
        "dst = joinpath (joinpath out_dir ''__group_only__'') (name_of src)"
    | (unknown) "to_unknown labels idxs"
        "dst = joinpath (joinpath out_dir ''__unknown__'') (name_of src)"
    unfolding decided_def by (auto split: option.splits)
  then show ?thesis
  proof cases
    case person
    from person(1,2) have "to_person E labels idxs lab" by (simp add: to_person_def)
    with rt obtain person' where "map_of c2n lab = Some person'"
      "stable s src (person_dst out_dir person' src)" by blast
    with person(3,4) stable_exists show ?thesis by auto
  next
    case group
    with rt stable_exists show ?thesis by blast
  next
    case unknown
    with rt stable_exists show ?thesis by blast
  qed
qed

lemma route_decided:
  assumes io: "set_order io" and po: "set_order po"
    and sub: "\<And>e. P e \<Longrightarrow>
        stray_copy out_dir
          (cluster_to_name_of
             (eligible_clusters_of records group_thr (fst (build_indices records labels))))
          (eligible_clusters_of records group_thr (fst (build_indices records labels)))
          labels src (indices_of_image records labels src) e"
  shows "copies P (snd (route_by_clusters io po records labels out_dir group_thr f)) \<le> copies P f"
  unfolding route_by_clusters_run(1) by (rule route_run_decided[OF io po sub])

lemma route_present:
  assumes "\<And>e. P e \<Longrightarrow> snd e = d" and "is_file f d"
  shows "copies P (snd (route_by_clusters io po records labels out_dir group_thr f)) \<le> copies P f"
  unfolding route_by_clusters_run(1) by (rule route_run_present[OF assms])







section \<open>A copy that fails\<close>

lemma and_then_raise:
  assumes "I (snd r)" and "\<And>t. I t \<Longrightarrow> fst (k t) \<noteq> None \<Longrightarrow> I (snd (k t))"
    and "fst (and_then r k) \<noteq> None"
  shows "I (snd (and_then r k))"
proof (cases r)
  case (Pair e t)
  show ?thesis
  proof (cases e)
    case None
    have eq: "and_then r k = k t" unfolding Pair None by simp
    have "I t" using assms(1) unfolding Pair by simp
    moreover have "fst (k t) \<noteq> None" using assms(3) unfolding eq .
    ultimately have "I (snd (k t))" by (rule assms(2))
    then show ?thesis unfolding eq .
  next
    case (Some x)
    have eq: "and_then r k = r" unfolding Pair Some by simp
    show ?thesis unfolding eq by (rule assms(1))
  qed
qed

lemma copy2_keeps:
  "copy_target s src dst \<noteq> p \<Longrightarrow> files (snd (copy2 src dst s)) p = files s p"
  by (simp add: copy2_def Let_def split: option.splits)

lemma copy_if_absent_keeps:
  assumes "dst \<noteq> p" and "joinpath dst (name_of src) \<noteq> p"
  shows "files (snd (copy_if_absent src dst s)) p = files s p"
proof -
  from assms have "copy_target s src dst \<noteq> p" by (simp add: copy_target_def)
  then show ?thesis by (simp add: copy_if_absent_def copy2_keeps)
qed

lemma person_dst_not_report:
  assumes "person \<noteq> []"
  shows "person_dst out_dir person src \<noteq> joinpath out_dir ''clustering_report.csv''"
    and "joinpath (person_dst out_dir person src) n \<noteq> joinpath out_dir ''clustering_report.csv''"
  using assms by (auto simp: person_dst_def joinpath_def)

lemma shared_dst_not_report:
  assumes "b = ''__unknown__'' \<or> b = ''__group_only__''"
  shows "joinpath (joinpath out_dir b) x \<noteq> joinpath out_dir ''clustering_report.csv''"
    and "joinpath (joinpath (joinpath out_dir b) x) n \<noteq> joinpath out_dir ''clustering_report.csv''"
  using assms by (auto simp: joinpath_def)

lemma copy_to_person_keeps:
  assumes "\<And>person. map_of c2n lab = Some person \<Longrightarrow> person \<noteq> []"
  shows "files (snd (copy_to_person records labels out_dir c2n src idxs lab s))
           (joinpath out_dir ''clustering_report.csv'')
         = files s (joinpath out_dir ''clustering_report.csv'')"
proof (cases rule: copy_to_person_cases[of c2n lab records labels out_dir src idxs s])
  case missing
  then show ?thesis by simp
next
  case (seen person)
  then show ?thesis by simp
next
  case (failed person e t)
  have "files (snd (copy_if_absent src (person_dst out_dir person src) s))
          (joinpath out_dir ''clustering_report.csv'')
        = files s (joinpath out_dir ''clustering_report.csv'')"
    by (rule copy_if_absent_keeps) (rule person_dst_not_report[OF assms[OF failed(1)]])+
  with failed(3,4) show ?thesis by simp
next
  case (copied person t)
  have "files (snd (copy_if_absent src (person_dst out_dir person src) s))
          (joinpath out_dir ''clustering_report.csv'')
        = files s (joinpath out_dir ''clustering_report.csv'')"
    by (rule copy_if_absent_keeps) (rule person_dst_not_report[OF assms[OF copied(1)]])+
  with copied(3,4) show ?thesis by simp
qed

lemma route_image_files:
  "files (snd (route_image io records labels out_dir E c2n item s))
     = files (snd (for_each (copy_to_person records labels out_dir c2n (fst item) (snd item))
             (eligible_on_image io E (labs_on_image io labels (snd item))) s))"
proof -
  let ?loop = "for_each (copy_to_person records labels out_dir c2n (fst item) (snd item))
             (eligible_on_image io E (labs_on_image io labels (snd item))) s"
  obtain r t where l: "?loop = (r, t)" by (cases ?loop)
  show ?thesis
  proof (cases r)
    case None
    from route_image_tail[OF l[unfolded None]] l show ?thesis by auto
  next
    case (Some e)
    from route_image_raise[OF l[unfolded Some]] l show ?thesis by simp
  qed
qed

lemma route_image_keeps:
  "files (snd (route_image io records labels out_dir E (cluster_to_name_of E) item s))
           (joinpath out_dir ''clustering_report.csv'')
         = files s (joinpath out_dir ''clustering_report.csv'')"
  unfolding route_image_files
proof (rule for_each_always[where I = "\<lambda>t. files t (joinpath out_dir ''clustering_report.csv'')
                                        = files s (joinpath out_dir ''clustering_report.csv'')"])
  fix x and t :: state
  assume i: "files t (joinpath out_dir ''clustering_report.csv'')
               = files s (joinpath out_dir ''clustering_report.csv'')"
  have ne: "person \<noteq> []" if "map_of (cluster_to_name_of E) x = Some person" for person
  proof -
    from named_person[OF that] obtain j where "person = person_name j" by blast
    then show ?thesis by (simp add: person_name_nonempty)
  qed
  have "files (snd (copy_to_person records labels out_dir (cluster_to_name_of E)
                      (fst item) (snd item) x t)) (joinpath out_dir ''clustering_report.csv'')
          = files t (joinpath out_dir ''clustering_report.csv'')"
    by (rule copy_to_person_keeps) (rule ne)
  with i
  show "files (snd (copy_to_person records labels out_dir (cluster_to_name_of E)
                      (fst item) (snd item) x t)) (joinpath out_dir ''clustering_report.csv'')
          = files s (joinpath out_dir ''clustering_report.csv'')" by simp
qed simp

lemma flush_loop_keeps:
  assumes "b = ''__unknown__'' \<or> b = ''__group_only__''"
  shows "files (snd (for_each (flush_copy (joinpath out_dir b)) xs (s::state)))
           (joinpath out_dir ''clustering_report.csv'')
         = files s (joinpath out_dir ''clustering_report.csv'')"
proof (rule for_each_always[where I = "\<lambda>t. files t (joinpath out_dir ''clustering_report.csv'')
                                        = files s (joinpath out_dir ''clustering_report.csv'')"])
  fix x and t :: state
  assume i: "files t (joinpath out_dir ''clustering_report.csv'')
               = files s (joinpath out_dir ''clustering_report.csv'')"
  have "files (snd (copy_if_absent x (joinpath (joinpath out_dir b) (name_of x)) t))
          (joinpath out_dir ''clustering_report.csv'')
        = files t (joinpath out_dir ''clustering_report.csv'')"
    by (rule copy_if_absent_keeps) (rule shared_dst_not_report[OF assms])+
  with i show "files (snd (flush_copy (joinpath out_dir b) x t)) (joinpath out_dir ''clustering_report.csv'')
          = files s (joinpath out_dir ''clustering_report.csv'')"
    by (simp add: flush_copy_def)
qed simp

lemma write_file_raise: "fst (write_file p c s) \<noteq> None \<Longrightarrow> snd (write_file p c s) = s"
  by (auto simp: write_file_def split: if_splits)

lemma after_dirs_raise:
  assumes "fst (after_dirs io po records labels out_dir group_thr s) \<noteq> None"
  shows "files (snd (after_dirs io po records labels out_dir group_thr s))
           (joinpath out_dir ''clustering_report.csv'')
         = files s (joinpath out_dir ''clustering_report.csv'')"
proof -
  let ?rp = "joinpath out_dir ''clustering_report.csv''"
  let ?I = "\<lambda>t::state. files t ?rp = files s ?rp"
  let ?E = "eligible_clusters_of records group_thr (fst (build_indices records labels))"
  have w: "?I t \<Longrightarrow> fst (write_file ?rp (Report (log t)) t) \<noteq> None
             \<Longrightarrow> ?I (snd (write_file ?rp (Report (log t)) t))" for t
    by (simp add: write_file_raise)
  have fu: "?I t \<Longrightarrow>
      fst (and_then (for_each (flush_copy (joinpath out_dir ''__unknown__'')) (po (staged_unknown t)) t)
              (\<lambda>s. write_file ?rp (Report (log s)) s)) \<noteq> None \<Longrightarrow>
      ?I (snd (and_then (for_each (flush_copy (joinpath out_dir ''__unknown__''))
                 (po (staged_unknown t)) t)
              (\<lambda>s. write_file ?rp (Report (log s)) s)))" for t
    by (rule and_then_raise[where I = ?I]) (simp_all add: flush_loop_keeps write_file_raise)
  have fg: "?I t \<Longrightarrow>
      fst (and_then (for_each (flush_copy (joinpath out_dir ''__group_only__''))
                 (po (staged_group_only t)) t)
              (\<lambda>s. and_then (for_each (flush_copy (joinpath out_dir ''__unknown__''))
                 (po (staged_unknown s)) s)
              (\<lambda>s. write_file ?rp (Report (log s)) s))) \<noteq> None \<Longrightarrow>
      ?I (snd (and_then (for_each (flush_copy (joinpath out_dir ''__group_only__''))
                 (po (staged_group_only t)) t)
              (\<lambda>s. and_then (for_each (flush_copy (joinpath out_dir ''__unknown__''))
                 (po (staged_unknown s)) s)
              (\<lambda>s. write_file ?rp (Report (log s)) s))))" for t
    apply (rule and_then_raise[where I = ?I])
      apply (simp add: flush_loop_keeps)
     apply (erule fu, assumption)
    apply assumption
    done
  have fi: "?I t \<Longrightarrow>
      ?I (snd (for_each (route_image io records labels out_dir ?E (cluster_to_name_of ?E))
              (snd (build_indices records labels)) t))" for t
    by (rule for_each_always[where I = ?I]) (simp_all add: route_image_keeps)
  have fe: "?I (snd (for_each (\<lambda>person. ensure_dir (joinpath out_dir person)) xs s))" for xs
    by (rule for_each_always[where I = ?I]) simp_all
  show ?thesis
    using assms unfolding after_dirs_def Let_def
    apply -
    apply (rule and_then_raise[where I = ?I, OF fe])
     apply (rule and_then_raise[where I = ?I])
       apply (erule fi)
      apply (erule fg, assumption)
     apply assumption
    apply assumption
    done
qed

lemma route_run_raise:
  assumes "fst (route_run io po records labels out_dir group_thr f) \<noteq> None"
  shows "files (snd (route_run io po records labels out_dir group_thr f))
           (joinpath out_dir ''clustering_report.csv'')
         = files f (joinpath out_dir ''clustering_report.csv'')"
proof -
  let ?rp = "joinpath out_dir ''clustering_report.csv''"
  let ?I = "\<lambda>t::state. files t ?rp = files f ?rp"
  have a: "?I t \<Longrightarrow> fst (after_dirs io po records labels out_dir group_thr t) \<noteq> None
        \<Longrightarrow> ?I (snd (after_dirs io po records labels out_dir group_thr t))" for t
    using after_dirs_raise[of io po records labels out_dir group_thr t] by simp
  have e3: "?I t \<Longrightarrow>
      fst (and_then (ensure_dir (joinpath out_dir ''__group_only__'') t)
             (after_dirs io po records labels out_dir group_thr)) \<noteq> None \<Longrightarrow>
      ?I (snd (and_then (ensure_dir (joinpath out_dir ''__group_only__'') t)
             (after_dirs io po records labels out_dir group_thr)))" for t
    apply (rule and_then_raise[where I = ?I])
      apply simp
     apply (erule a, assumption)
    apply assumption
    done
  have e2: "?I t \<Longrightarrow>
      fst (and_then (ensure_dir (joinpath out_dir ''__unknown__'') t) (\<lambda>s.
           and_then (ensure_dir (joinpath out_dir ''__group_only__'') s)
             (after_dirs io po records labels out_dir group_thr))) \<noteq> None \<Longrightarrow>
      ?I (snd (and_then (ensure_dir (joinpath out_dir ''__unknown__'') t) (\<lambda>s.
           and_then (ensure_dir (joinpath out_dir ''__group_only__'') s)
             (after_dirs io po records labels out_dir group_thr))))" for t
    apply (rule and_then_raise[where I = ?I])
      apply simp
     apply (erule e3, assumption)
    apply assumption
    done
  show ?thesis
    using assms unfolding route_run_def
    apply -
    apply (rule and_then_raise[where I = ?I])
      apply simp
     apply (erule e2, assumption)
    apply assumption
    done
qed

lemma raised_run:
  "fst (route_by_clusters io po records labels out_dir group_thr f) = Inl e
     \<Longrightarrow> fst (route_run io po records labels out_dir group_thr f) \<noteq> None"
  using route_by_clusters_run(2)[of io po records labels out_dir group_thr f] by auto

lemma main_raises:
  assumes "collect_faces blurred detect fls \<noteq> []"
    and "cluster_faces fit_predict (collect_faces blurred detect fls)
           (args_eps_sim a) (args_min_samples a) = Inr labels"
    and "fst (route_by_clusters io po (collect_faces blurred detect fls) labels
                (args_out_dir a) (args_group_thr a) f) = Inl e"
  shows "fst (main blurred detect fit_predict io po a fls f) = Inl e"
proof -
  obtain x s where r: "route_by_clusters io po (collect_faces blurred detect fls) labels
                (args_out_dir a) (args_group_thr a) f = (x, s)"
    by (cases "route_by_clusters io po (collect_faces blurred detect fls) labels
                (args_out_dir a) (args_group_thr a) f")
  with assms(3) have "x = Inl e" by simp
  with assms(1,2) r show ?thesis by (simp add: main_def)
qed

lemma route_raise:
  assumes "fst (route_by_clusters io po records labels out_dir group_thr f) = Inl e"
  shows "files (snd (route_by_clusters io po records labels out_dir group_thr f))
           (joinpath out_dir ''clustering_report.csv'')
         = files f (joinpath out_dir ''clustering_report.csv'')"
  unfolding route_by_clusters_run(1) by (rule route_run_raise[OF raised_run[OF assms]])




section \<open>One copy to a destination\<close>

lemma ancestors_length: "q \<in> set (ancestors p) \<Longrightarrow> length q \<le> length p"
  by (induction p arbitrary: q) auto

lemma once_fs_eq:
  "dirs t = dirs s \<Longrightarrow> files t = files s \<Longrightarrow> journal t = journal s
     \<Longrightarrow> once d c s \<Longrightarrow> once d c t"
  by (simp add: once_def is_file_def copies_def)

lemma ensure_dir_once:
  assumes "once d c s" and "length p < length d"
  shows "once d c (snd (ensure_dir p s))"
proof -
  have "d \<notin> set (ancestors p)" using ancestors_length[of d p] assms(2) by auto
  with assms(1) show ?thesis
    by (auto simp: once_def ensure_dir_def is_file_def copies_def)
qed

lemma copy_if_absent_once:
  assumes o: "once d c s"
  shows "once d c (snd (copy_if_absent x y s))"
proof (cases "is_file s y")
  case True
  then have "copy_if_absent x y s = (None, s)" by (simp add: copy_if_absent_def)
  with o show ?thesis by simp
next
  case False
  then have eq: "copy_if_absent x y s = copy2 x y s" by (simp add: copy_if_absent_def)
  obtain r t where c: "copy2 x y s = (r, t)" by (cases "copy2 x y s")
  show ?thesis
  proof (cases r)
    case (Some e)
    then have "t = s" using c by (auto simp: copy2_def Let_def split: option.splits if_splits)
    with o eq c show ?thesis by simp
  next
    case None
    note ok = copy2_success[OF c[unfolded None]]
    from ok have t: "t = s\<lparr>files := (files s)(copy_target s x y \<mapsto> the (files s x)),
               journal := journal s @ [(x, y)]\<rparr>" by simp
    from o have nd: "d \<notin> dirs s" by (simp add: once_def)
    show ?thesis
    proof (cases "y = d")
      case True
      with nd have ct: "copy_target s x y = d" by (simp add: copy_target_def)
      from False True have "\<not> is_file s d" by simp
      with o have le: "copies (\<lambda>e. snd e = d) s \<le> c" by (auto simp: once_def)
      have "once d c t"
        unfolding t once_def using nd le True ct by (simp add: copies_def is_file_def)
      with eq c show ?thesis by simp
    next
      case ne: False
      have j: "copies (\<lambda>e. snd e = d) t = copies (\<lambda>e. snd e = d) s"
        unfolding t using ne by (simp add: copies_def)
      have f: "is_file s d \<Longrightarrow> is_file t d" unfolding t by (simp add: is_file_def)
      have "once d c t"
        using o f unfolding once_def j by (auto simp: t)
      with eq c show ?thesis by simp
    qed
  qed
qed

lemma copy_to_person_once:
  assumes o: "once d c s"
  shows "once d c (snd (copy_to_person records labels out_dir c2n src idxs lab s))"
proof (cases rule: copy_to_person_cases[of c2n lab records labels out_dir src idxs s])
  case missing
  with o show ?thesis by simp
next
  case (seen person)
  have "once d c (s\<lparr>log := log s @ log_rows records labels src idxs (\<lambda>l. l = lab)
                                    person ''eligible_person_image''\<rparr>)"
    by (rule once_fs_eq[OF _ _ _ o]) simp_all
  with seen(3) show ?thesis by simp
next
  case (failed person e t)
  from copy_if_absent_once[OF o, of src "person_dst out_dir person src"] failed(3,4)
  show ?thesis by simp
next
  case (copied person t)
  from copy_if_absent_once[OF o, of src "person_dst out_dir person src"] copied(3)
  have ot: "once d c t" by simp
  have "once d c (t\<lparr>copied_person_image := insert (person, src) (copied_person_image t),
                     log := log t @ log_rows records labels src idxs (\<lambda>l. l = lab)
                                    person ''eligible_person_image''\<rparr>)"
    by (rule once_fs_eq[OF _ _ _ ot]) simp_all
  with copied(4) show ?thesis by simp
qed

lemma route_image_once:
  assumes o: "once d c s"
  shows "once d c (snd (route_image io records labels out_dir E c2n item s))"
proof -
  let ?loop = "for_each (copy_to_person records labels out_dir c2n (fst item) (snd item))
             (eligible_on_image io E (labs_on_image io labels (snd item))) s"
  have l: "once d c (snd ?loop)"
    by (rule for_each_always[where I = "once d c"]) (simp_all add: o copy_to_person_once)
  have dl: "dirs (snd ?loop) = dirs s" by (rule for_each_dirs) simp
  show ?thesis
    by (rule once_fs_eq[OF _ route_image_files route_image_journal l])
       (simp add: route_image_dirs dl)
qed

lemma flush_loop_once:
  assumes o: "once d c s"
  shows "once d c (snd (for_each (flush_copy dir) xs s))"
  by (rule for_each_always[where I = "once d c"])
     (simp_all add: o flush_copy_def copy_if_absent_once)

lemma write_file_once: "once d c s \<Longrightarrow> once d c (snd (write_file p x s))"
  by (auto simp: once_def copies_def is_file_def write_file_def)

lemma after_dirs_once:
  fixes s :: state
  assumes o: "once d c s" and len: "length out_dir + 1 < length d"
  shows "once d c (snd (after_dirs io po records labels out_dir group_thr s))"
proof -
  let ?K = "once d c :: state \<Rightarrow> bool"
  have lp: "length (joinpath out_dir x) < length d" for x
    using len by (simp add: joinpath_def)
  have fe: "?K (snd (for_each (\<lambda>person. ensure_dir (joinpath out_dir person)) xs s))" for xs
    by (rule for_each_always[where I = ?K]) (simp_all add: o ensure_dir_once lp)
  have fi: "?K t \<Longrightarrow> ?K (snd (for_each (route_image io records labels out_dir E c2n) items t))"
    for t E c2n items
    by (rule for_each_always[where I = ?K]) (simp_all add: route_image_once)
  have fl: "?K t \<Longrightarrow> ?K (snd (for_each (flush_copy dir) xs t))" for t dir xs
    by (rule flush_loop_once)
  have w: "?K t \<Longrightarrow> ?K (snd (write_file q (Report (log t)) t))" for t q
    by (rule write_file_once)
  show ?thesis
    unfolding after_dirs_def Let_def
    apply (rule and_then_always[where I = ?K, OF fe])
    apply (rule and_then_always[where I = ?K])
     apply (erule fi)
    apply (rule and_then_always[where I = ?K])
     apply (erule fl)
    apply (rule and_then_always[where I = ?K])
     apply (erule fl)
    apply (erule w)
    done
qed

lemma route_run_once:
  assumes nd: "d \<notin> dirs f" and len: "length out_dir + 1 < length d"
  shows "once d (copies (\<lambda>e. snd e = d) f)
           (snd (route_run io po records labels out_dir group_thr f))"
proof -
  let ?K = "once d (copies (\<lambda>e. snd e = d) f) :: state \<Rightarrow> bool"
  have k0: "?K (init_state f)" using nd by (simp add: once_def copies_def)
  have l0: "length out_dir < length d" using len by simp
  have lp: "length (joinpath out_dir x) < length d" for x
    using len by (simp add: joinpath_def)
  show ?thesis
    unfolding route_run_def
    apply (rule and_then_always[where I = ?K])
     apply (rule ensure_dir_once[OF k0 l0])
    apply (rule and_then_always[where I = ?K])
     apply (erule ensure_dir_once, rule lp)
    apply (rule and_then_always[where I = ?K])
     apply (erule ensure_dir_once, rule lp)
    apply (erule after_dirs_once, rule len)
    done
qed

section \<open>Two images with one basename\<close>

lemma flush_loop_skips:
  fixes s :: state
  assumes fsb: "\<And>e. P e \<Longrightarrow> fst e = b"
    and isf: "is_file s (joinpath dir (name_of b))"
  shows "copies P (snd (for_each (flush_copy dir) xs s)) \<le> copies P s"
proof -
  let ?d = "joinpath dir (name_of b)"
  let ?I = "\<lambda>t::state. is_file t ?d \<and> copies P t \<le> copies P s"
  have "?I (snd (for_each (flush_copy dir) xs s))"
  proof (rule for_each_always[where I = ?I])
    show "?I s" using isf by simp
  next
    fix x and t :: state
    assume i: "?I t"
    show "?I (snd (flush_copy dir x t))"
    proof (cases "x = b")
      case True
      with i have "flush_copy dir x t = (None, t)"
        by (simp add: flush_copy_def copy_if_absent_def)
      with i show ?thesis by simp
    next
      case False
      have "\<not> P (x, joinpath dir (name_of x))" using fsb False by fastforce
      with copy_if_absent_copies[of P x "joinpath dir (name_of x)" t]
      have c: "copies P (snd (flush_copy dir x t)) \<le> copies P t" by (simp add: flush_copy_def)
      have "is_file (snd (flush_copy dir x t)) ?d"
        unfolding flush_copy_def using is_file_grown[OF copy_if_absent_grown] i by blast
      with c i show ?thesis by simp
    qed
  qed
  then show ?thesis by simp
qed

lemma flush_later_skipped:
  fixes s :: state
  assumes fsb: "\<And>e. P e \<Longrightarrow> fst e = b"
    and before: "comes_before a b xs"
    and nm: "name_of a = name_of b"
    and nd: "joinpath dir (name_of a) \<notin> dirs s"
  shows "copies P (snd (for_each (flush_copy dir) xs s)) \<le> copies P s"
  using before nd
proof (induction xs arbitrary: s)
  case Nil
  then show ?case by (simp add: comes_before_def)
next
  case (Cons x xs)
  from Cons.prems(1) have xb: "x \<noteq> b" and ax: "a = x \<or> comes_before a b xs"
    by (auto simp: comes_before_def split: if_splits)
  have "\<not> P (x, joinpath dir (name_of x))" using fsb xb by fastforce
  with copy_if_absent_copies[of P x "joinpath dir (name_of x)" s]
  have c: "copies P (snd (flush_copy dir x s)) \<le> copies P s" by (simp add: flush_copy_def)
  obtain r t where st: "flush_copy dir x s = (r, t)" by (cases "flush_copy dir x s")
  have dt: "dirs t = dirs s" using flush_copy_dirs[of dir x s] st by simp
  show ?case
  proof (cases r)
    case (Some e)
    with st c show ?thesis by simp
  next
    case None
    have eq: "for_each (flush_copy dir) (x # xs) s = for_each (flush_copy dir) xs t"
      using st None by simp
    have "copies P (snd (for_each (flush_copy dir) xs t)) \<le> copies P t"
    proof (cases "a = x")
      case True
      from st None have "copy_if_absent x (joinpath dir (name_of x)) s = (None, t)"
        by (simp add: flush_copy_def)
      from copy_if_absent_stable[OF this] have "stable t a (joinpath dir (name_of a))"
        using True by simp
      from stable_is_file[OF this] Cons.prems(2) dt
      have "is_file t (joinpath dir (name_of b))" by (simp add: nm)
      from flush_loop_skips[OF fsb this] show ?thesis .
    next
      case False
      with ax have "comes_before a b xs" by simp
      from Cons.IH[OF this] Cons.prems(2) dt show ?thesis by simp
    qed
    with c st show ?thesis unfolding eq by simp
  qed
qed

lemma route_image_staged_list:
  assumes io: "set_order io"
    and run: "route_image io records labels out_dir E c2n item s = (None, t)"
  shows "staged_unknown t
           = staged_unknown s @ (if to_unknown labels (snd item) then [fst item] else [])"
    and "staged_group_only t
           = staged_group_only s @ (if to_group_only E labels (snd item) then [fst item] else [])"
proof -
  let ?loop = "for_each (copy_to_person records labels out_dir c2n (fst item) (snd item))
             (eligible_on_image io E (labs_on_image io labels (snd item))) s"
  note st = person_loop_staged[of records labels out_dir c2n "fst item" "snd item"
              "eligible_on_image io E (labs_on_image io labels (snd item))" s]
  obtain r t0 where l: "?loop = (r, t0)" by (cases ?loop)
  from st l have t0: "staged_group_only t0 = staged_group_only s"
    "staged_unknown t0 = staged_unknown s" by simp_all
  have rn: "r = None"
  proof (cases r)
    case (Some e)
    from route_image_raise[OF l[unfolded Some]] run show ?thesis by simp
  qed simp
  from route_image_tail[OF l[unfolded rn]] obtain l1 l2 where
    r: "route_image io records labels out_dir E c2n item s =
       (None, t0\<lparr>staged_group_only :=
                   (if ineligible_on_image io E (labs_on_image io labels (snd item)) \<noteq> []
                    then staged_group_only t0 @ [fst item] else staged_group_only t0),
                 staged_unknown :=
                   (if \<not> has_any_cluster (labs_on_image io labels (snd item))
                    then staged_unknown t0 @ [fst item] else staged_unknown t0),
                 log := log t0 @ l1 @ l2\<rparr>)" by blast
  from r run have t: "t = t0\<lparr>staged_group_only :=
                   (if ineligible_on_image io E (labs_on_image io labels (snd item)) \<noteq> []
                    then staged_group_only t0 @ [fst item] else staged_group_only t0),
                 staged_unknown :=
                   (if \<not> has_any_cluster (labs_on_image io labels (snd item))
                    then staged_unknown t0 @ [fst item] else staged_unknown t0),
                 log := log t0 @ l1 @ l2\<rparr>" by simp
  show "staged_unknown t
           = staged_unknown s @ (if to_unknown labels (snd item) then [fst item] else [])"
    unfolding t using t0 by (simp add: no_cluster_iff[OF io])
  show "staged_group_only t
           = staged_group_only s @ (if to_group_only E labels (snd item) then [fst item] else [])"
    unfolding t using t0 by (simp add: ineligible_nonempty[OF io])
qed

lemma images_loop_staged_list:
  assumes io: "set_order io"
    and run: "for_each (route_image io records labels out_dir E c2n) items s = (None, s')"
  shows "staged_unknown s'
           = staged_unknown s @ map fst (filter (\<lambda>item. to_unknown labels (snd item)) items)
       \<and> staged_group_only s'
           = staged_group_only s
             @ map fst (filter (\<lambda>item. to_group_only E labels (snd item)) items)"
  using run
proof (induction items arbitrary: s)
  case Nil
  then show ?case by simp
next
  case (Cons x xs)
  obtain r t where st: "route_image io records labels out_dir E c2n x s = (r, t)"
    by (cases "route_image io records labels out_dir E c2n x s")
  have rn: "r = None"
  proof (cases r)
    case (Some e)
    with st Cons.prems show ?thesis by simp
  qed simp
  from Cons.prems st rn
  have rest: "for_each (route_image io records labels out_dir E c2n) xs t = (None, s')" by simp
  note one = route_image_staged_list[OF io st[unfolded rn]]
  from Cons.IH[OF rest] one show ?case by simp
qed

lemma flush_loop_staged:
  fixes s :: state
  shows "staged_unknown (snd (for_each (flush_copy dir) xs s)) = staged_unknown s
    \<and> staged_group_only (snd (for_each (flush_copy dir) xs s)) = staged_group_only s"
  by (rule for_each_always[where I = "\<lambda>t::state. staged_unknown t = staged_unknown s
                                        \<and> staged_group_only t = staged_group_only s"])
     (simp_all add: flush_copy_def)

lemma ensure_loop_staged:
  fixes s :: state
  shows "staged_unknown (snd (for_each (\<lambda>person. ensure_dir (joinpath out_dir person)) xs s))
           = staged_unknown s
    \<and> staged_group_only (snd (for_each (\<lambda>person. ensure_dir (joinpath out_dir person)) xs s))
           = staged_group_only s"
  by (rule for_each_always[where I = "\<lambda>t::state. staged_unknown t = staged_unknown s
                                        \<and> staged_group_only t = staged_group_only s"])
     simp_all

lemma after_dirs_staged:
  fixes s :: state
  assumes io: "set_order io"
    and run: "after_dirs io po records labels out_dir group_thr s = (None, s')"
    and st0: "staged_unknown s = []" "staged_group_only s = []"
  shows "staged_unknown s' = staged_for_unknown records labels"
    and "staged_group_only s' = staged_for_group_only records labels group_thr"
proof -
  let ?E = "eligible_clusters_of records group_thr (fst (build_indices records labels))"
  from run obtain s4 s5 s6 s7 where
    d: "for_each (\<lambda>person. ensure_dir (joinpath out_dir person))
       (map snd (cluster_to_name_of ?E)) s = (None, s4)" and
    r: "for_each (route_image io records labels out_dir ?E (cluster_to_name_of ?E))
          (snd (build_indices records labels)) s4 = (None, s5)" and
    g: "for_each (flush_copy (joinpath out_dir ''__group_only__'')) (po (staged_group_only s5)) s5
       = (None, s6)" and
    u: "for_each (flush_copy (joinpath out_dir ''__unknown__'')) (po (staged_unknown s6)) s6
       = (None, s7)" and
    w: "write_file (joinpath out_dir ''clustering_report.csv'') (Report (log s7)) s7 = (None, s')"
    by (rule after_dirs_NoneE)
  have s4: "staged_unknown s4 = []" "staged_group_only s4 = []"
    using ensure_loop_staged[of out_dir "map snd (cluster_to_name_of ?E)" s] d st0 by simp_all
  have s5: "staged_unknown s5 = staged_for_unknown records labels"
    "staged_group_only s5 = staged_for_group_only records labels group_thr"
    using images_loop_staged_list[OF io r] s4
    by (simp_all add: staged_for_unknown_def staged_for_group_only_def)
  have s6: "staged_unknown s6 = staged_unknown s5" "staged_group_only s6 = staged_group_only s5"
    using flush_loop_staged[of "joinpath out_dir ''__group_only__''" "po (staged_group_only s5)" s5] g
    by simp_all
  have s7: "staged_unknown s7 = staged_unknown s6" "staged_group_only s7 = staged_group_only s6"
    using flush_loop_staged[of "joinpath out_dir ''__unknown__''" "po (staged_unknown s6)" s6] u
    by simp_all
  from write_file_success[OF w]
  have s': "staged_unknown s' = staged_unknown s7" "staged_group_only s' = staged_group_only s7"
    by simp_all
  show "staged_unknown s' = staged_for_unknown records labels" by (simp add: s' s7 s6 s5)
  show "staged_group_only s' = staged_for_group_only records labels group_thr"
    by (simp add: s' s7 s6 s5)
qed

lemma after_dirs_later:
  fixes s :: state
  assumes io: "set_order io" and po: "set_order po"
    and run: "after_dirs io po records labels out_dir group_thr s = (None, s')"
    and st0: "staged_unknown s = []" "staged_group_only s = []"
    and nm: "name_of a = name_of b"
  shows "comes_before a b (po (staged_for_unknown records labels))
           \<Longrightarrow> joinpath (joinpath out_dir ''__unknown__'') (name_of a) \<notin> dirs s'
           \<Longrightarrow> copies (in_bucket b (out_dir @ [''__unknown__''])) s'
                 \<le> copies (in_bucket b (out_dir @ [''__unknown__''])) s"
    and "comes_before a b (po (staged_for_group_only records labels group_thr))
           \<Longrightarrow> joinpath (joinpath out_dir ''__group_only__'') (name_of a) \<notin> dirs s'
           \<Longrightarrow> copies (in_bucket b (out_dir @ [''__group_only__''])) s'
                 \<le> copies (in_bucket b (out_dir @ [''__group_only__''])) s"
proof -
  let ?E = "eligible_clusters_of records group_thr (fst (build_indices records labels))"
  let ?G = "joinpath out_dir ''__group_only__''" and ?U = "joinpath out_dir ''__unknown__''"
  from run obtain s4 s5 s6 s7 where
    d: "for_each (\<lambda>person. ensure_dir (joinpath out_dir person))
       (map snd (cluster_to_name_of ?E)) s = (None, s4)" and
    r: "for_each (route_image io records labels out_dir ?E (cluster_to_name_of ?E))
          (snd (build_indices records labels)) s4 = (None, s5)" and
    g: "for_each (flush_copy ?G) (po (staged_group_only s5)) s5 = (None, s6)" and
    u: "for_each (flush_copy ?U) (po (staged_unknown s6)) s6 = (None, s7)" and
    w: "write_file (joinpath out_dir ''clustering_report.csv'') (Report (log s7)) s7 = (None, s')"
    by (rule after_dirs_NoneE)
  have GU: "?G = out_dir @ [''__group_only__'']" "?U = out_dir @ [''__unknown__'']"
    by (simp_all add: joinpath_def)
  have dis: "distinct (po xs)" for xs using po by (simp add: set_order_def)
  have s4: "staged_unknown s4 = []" "staged_group_only s4 = []"
    using ensure_loop_staged[of out_dir "map snd (cluster_to_name_of ?E)" s] d st0 by simp_all
  have s5: "staged_unknown s5 = staged_for_unknown records labels"
    "staged_group_only s5 = staged_for_group_only records labels group_thr"
    using images_loop_staged_list[OF io r] s4
    by (simp_all add: staged_for_unknown_def staged_for_group_only_def)
  have s6: "staged_unknown s6 = staged_unknown s5"
    using flush_loop_staged[of ?G "po (staged_group_only s5)" s5] g by simp
  have d7: "dirs s7 = dirs s6" using flush_loop_dirs[of ?U "po (staged_unknown s6)" s6] u by simp
  have d6: "dirs s6 = dirs s5" using flush_loop_dirs[of ?G "po (staged_group_only s5)" s5] g by simp
  have d': "dirs s' = dirs s7" using write_file_success[OF w] by simp
  have c4: "copies P s4 = copies P s" for P
    using ensure_loop_copies[of P out_dir "map snd (cluster_to_name_of ?E)" s] d by simp
  have c5: "copies (in_bucket b (out_dir @ [nm])) s5 \<le> copies (in_bucket b (out_dir @ [nm])) s4"
    if "nm \<noteq> []" "hd nm \<noteq> CHR ''p''" for nm
    using images_loop_copies[OF io image_keys_distinct[of records labels] that(1),
            where src = b and out_dir = out_dir and records = records and labels = labels
              and E = "?E" and s = s4]
      r that(2) by simp
  have c': "copies P s' = copies P s7" for P
    using write_file_journal[of "joinpath out_dir ''clustering_report.csv''" "Report (log s7)" s7] w
    by (simp add: copies_def)
  have fsb: "fst e = b" if "in_bucket b p e" for e p using that by (simp add: in_bucket_def)
  show "comes_before a b (po (staged_for_unknown records labels))
           \<Longrightarrow> joinpath (joinpath out_dir ''__unknown__'') (name_of a) \<notin> dirs s'
           \<Longrightarrow> copies (in_bucket b (out_dir @ [''__unknown__''])) s'
                 \<le> copies (in_bucket b (out_dir @ [''__unknown__''])) s"
  proof -
    assume before: "comes_before a b (po (staged_for_unknown records labels))"
      and nd: "joinpath ?U (name_of a) \<notin> dirs s'"
    let ?P = "in_bucket b (out_dir @ [''__unknown__''])"
    have a5: "copies ?P s5 \<le> copies ?P s4" by (rule c5) simp_all
    have a6: "copies ?P s6 \<le> copies ?P s5"
      using flush_loop_bucket[OF dis, where nm = "''__unknown__''" and dn = "''__group_only__''"
              and src = b and out_dir = out_dir and xs1 = "staged_group_only s5" and s = s5] g
      by (simp add: GU)
    have nd6: "joinpath ?U (name_of a) \<notin> dirs s6" using nd by (simp add: d' d7)
    have "copies ?P (snd (for_each (flush_copy ?U) (po (staged_unknown s6)) s6)) \<le> copies ?P s6"
      by (rule flush_later_skipped[OF fsb _ nm nd6]) (simp_all add: s6 s5 before)
    with u have a7: "copies ?P s7 \<le> copies ?P s6" by simp
    from a5 a6 a7 show "copies ?P s' \<le> copies ?P s" unfolding c' c4[symmetric] by linarith
  qed
  show "comes_before a b (po (staged_for_group_only records labels group_thr))
           \<Longrightarrow> joinpath (joinpath out_dir ''__group_only__'') (name_of a) \<notin> dirs s'
           \<Longrightarrow> copies (in_bucket b (out_dir @ [''__group_only__''])) s'
                 \<le> copies (in_bucket b (out_dir @ [''__group_only__''])) s"
  proof -
    assume before: "comes_before a b (po (staged_for_group_only records labels group_thr))"
      and nd: "joinpath ?G (name_of a) \<notin> dirs s'"
    let ?P = "in_bucket b (out_dir @ [''__group_only__''])"
    have a5: "copies ?P s5 \<le> copies ?P s4" by (rule c5) simp_all
    have nd5: "joinpath ?G (name_of a) \<notin> dirs s5" using nd by (simp add: d' d7 d6)
    have "copies ?P (snd (for_each (flush_copy ?G) (po (staged_group_only s5)) s5)) \<le> copies ?P s5"
      by (rule flush_later_skipped[OF fsb _ nm nd5]) (simp_all add: s5 before)
    with g have a6: "copies ?P s6 \<le> copies ?P s5" by simp
    have a7: "copies ?P s7 \<le> copies ?P s6"
      using flush_loop_bucket[OF dis, where nm = "''__group_only__''" and dn = "''__unknown__''"
              and src = b and out_dir = out_dir and xs1 = "staged_unknown s6" and s = s6] u
      by (simp add: GU)
    from a5 a6 a7 show "copies ?P s' \<le> copies ?P s" unfolding c' c4[symmetric] by linarith
  qed
qed

lemma decided_in_shared:
  assumes d: "decided out_dir (cluster_to_name_of E) E labels src idxs dst"
    and b: "b = ''__group_only__'' \<or> b = ''__unknown__''"
    and p: "parent dst = out_dir @ [b]"
  shows "dst = joinpath (joinpath out_dir b) (name_of src)"
proof -
  from d consider
    (person) lab person where "map_of (cluster_to_name_of E) lab = Some person"
      "dst = person_dst out_dir person src"
    | (group) "dst = joinpath (joinpath out_dir ''__group_only__'') (name_of src)"
    | (unknown) "dst = joinpath (joinpath out_dir ''__unknown__'') (name_of src)"
    unfolding decided_def by (auto split: option.splits)
  then show ?thesis
  proof cases
    case person
    from named_person[OF person(1)] obtain j where j: "person = person_name j" by blast
    then have "person \<noteq> []" by (simp add: person_name_nonempty)
    from person_dst_parent[OF this, of out_dir src] p person(2) have "b = person" by simp
    with no_person_named_shared[of b E lab] b person(1) show ?thesis by blast
  next
    case group
    with p have "b = ''__group_only__''"
      by (auto simp: joinpath_def parent_def butlast_append split: if_splits)
    with group show ?thesis by simp
  next
    case unknown
    with p have "b = ''__unknown__''"
      by (auto simp: joinpath_def parent_def butlast_append split: if_splits)
    with unknown show ?thesis by simp
  qed
qed

lemma shared_basename_only:
  assumes io: "set_order io" and po: "set_order po"
    and b: "b = ''__group_only__'' \<or> b = ''__unknown__''"
  shows "copies (\<lambda>e. in_bucket a (joinpath out_dir b) e
                       \<and> snd e \<noteq> joinpath (joinpath out_dir b) (name_of a))
           (snd (route_by_clusters io po records labels out_dir group_thr f))
         \<le> copies (\<lambda>e. in_bucket a (joinpath out_dir b) e
                          \<and> snd e \<noteq> joinpath (joinpath out_dir b) (name_of a)) f"
proof (rule route_decided[OF io po, where src = a])
  fix e
  assume e: "in_bucket a (joinpath out_dir b) e
               \<and> snd e \<noteq> joinpath (joinpath out_dir b) (name_of a)"
  have jb: "joinpath out_dir b = out_dir @ [b]" using b by (auto simp: joinpath_def)
  from e have f: "fst e = a" and p: "parent (snd e) = out_dir @ [b]"
    and n: "snd e \<noteq> joinpath (joinpath out_dir b) (name_of a)"
    by (simp_all add: in_bucket_def jb)
  from decided_in_shared[OF _ b p] n
  have "\<not> decided out_dir
          (cluster_to_name_of
             (eligible_clusters_of records group_thr (fst (build_indices records labels))))
          (eligible_clusters_of records group_thr (fst (build_indices records labels)))
          labels a (indices_of_image records labels a) (snd e)" by blast
  with f show "stray_copy out_dir
          (cluster_to_name_of
             (eligible_clusters_of records group_thr (fst (build_indices records labels))))
          (eligible_clusters_of records group_thr (fst (build_indices records labels)))
          labels a (indices_of_image records labels a) e"
    by (simp add: stray_copy_def)
qed

lemma ensure_dir_returned:
  assumes "ensure_dir p s = (None, t)"
  shows "staged_unknown t = staged_unknown s" "staged_group_only t = staged_group_only s"
    "journal t = journal s"
proof -
  from assms have t: "t = snd (ensure_dir p s)" by simp
  show "staged_unknown t = staged_unknown s" "staged_group_only t = staged_group_only s"
    "journal t = journal s"
    unfolding t by simp_all
qed

lemma returned_start:
  assumes run: "route_run io po records labels out_dir group_thr f = (None, s')"
  obtains s3 where "after_dirs io po records labels out_dir group_thr s3 = (None, s')"
    "staged_unknown s3 = []" "staged_group_only s3 = []" "journal s3 = journal f"
proof -
  from run obtain s1 s2 s3 where
    e1: "ensure_dir out_dir (init_state f) = (None, s1)" and
    e2: "ensure_dir (joinpath out_dir ''__unknown__'') s1 = (None, s2)" and
    e3: "ensure_dir (joinpath out_dir ''__group_only__'') s2 = (None, s3)" and
    rest: "after_dirs io po records labels out_dir group_thr s3 = (None, s')"
    by (rule route_run_NoneE)
  have a1: "staged_unknown s1 = []" "staged_group_only s1 = []" "journal s1 = journal f"
    using ensure_dir_returned[OF e1] by (simp_all add: init_state_def)
  have a2: "staged_unknown s2 = []" "staged_group_only s2 = []" "journal s2 = journal f"
    using ensure_dir_returned[OF e2] a1 by simp_all
  have a3: "staged_unknown s3 = []" "staged_group_only s3 = []" "journal s3 = journal f"
    using ensure_dir_returned[OF e3] a2 by simp_all
  show thesis by (rule that[OF rest a3])
qed

lemma staged_for_unknown_routed:
  assumes io: "set_order io" and po: "set_order po"
    and run: "route_run io po records labels out_dir group_thr f = (None, s')"
    and a: "a \<in> set (staged_for_unknown records labels)"
  shows "stable s' a (joinpath (joinpath out_dir ''__unknown__'') (name_of a))"
proof -
  from a obtain item where it: "item \<in> set (snd (build_indices records labels))"
    and u: "to_unknown labels (snd item)" and f: "fst item = a"
    by (auto simp: staged_for_unknown_def)
  from route_run_routes[OF io po run] it u f show ?thesis unfolding routed_def by blast
qed

lemma staged_for_group_only_routed:
  assumes io: "set_order io" and po: "set_order po"
    and run: "route_run io po records labels out_dir group_thr f = (None, s')"
    and a: "a \<in> set (staged_for_group_only records labels group_thr)"
  shows "stable s' a (joinpath (joinpath out_dir ''__group_only__'') (name_of a))"
proof -
  from a obtain item where it: "item \<in> set (snd (build_indices records labels))"
    and u: "to_group_only
              (eligible_clusters_of records group_thr (fst (build_indices records labels)))
              labels (snd item)" and f: "fst item = a"
    by (auto simp: staged_for_group_only_def)
  from route_run_routes[OF io po run] it u f show ?thesis unfolding routed_def by blast
qed

lemma comes_before_member: "comes_before a b xs \<Longrightarrow> a \<in> set xs"
  unfolding comes_before_def by (meson set_takeWhileD)

lemma shared_collision:
  assumes io: "set_order io" and po: "set_order po"
    and run: "route_run io po records labels out_dir group_thr f = (None, s')"
    and nm: "name_of a = name_of b" and ne: "name_of a \<noteq> []"
    and bk: "bk = ''__group_only__'' \<or> bk = ''__unknown__''"
    and st: "stable s' a (joinpath (joinpath out_dir bk) (name_of a))"
    and nd: "joinpath (joinpath out_dir bk) (name_of a) \<notin> dirs f"
  shows "joinpath (joinpath out_dir bk) (name_of a) \<notin> dirs s'"
    and "is_file s' (joinpath (joinpath out_dir bk) (name_of a))"
    and "copies (\<lambda>e. snd e = joinpath (joinpath out_dir bk) (name_of a)) s'
           \<le> copies (\<lambda>e. snd e = joinpath (joinpath out_dir bk) (name_of a)) f + 1"
proof -
  let ?d = "joinpath (joinpath out_dir bk) (name_of a)"
  have len: "length out_dir + 1 < length ?d" using ne bk by (auto simp: joinpath_def)
  from route_run_once[OF nd len, of io po records labels group_thr] run
  have o: "once ?d (copies (\<lambda>e. snd e = ?d) f) s'" by simp
  then show nd': "?d \<notin> dirs s'" by (simp add: once_def)
  from stable_is_file[OF st nd'] show "is_file s' ?d" .
  from o show "copies (\<lambda>e. snd e = ?d) s' \<le> copies (\<lambda>e. snd e = ?d) f + 1"
    unfolding once_def by auto
qed




end
